theory Spec2Isabelle
  imports Main
begin

section \<open>Strings and formatting helpers used by the builder\<close>

text \<open>
  Go strings are byte sequences; they are modelled as \<open>string\<close> (a list of
  characters). The helpers below stand for the library calls of
  \<^verbatim>\<open>builder.go\<close>: \<^verbatim>\<open>strings.Split(s, ".")\<close>, \<^verbatim>\<open>strings.Join\<close>,
  \<^verbatim>\<open>strings.ToUpper\<close> and the \<^verbatim>\<open>%d\<close> verb of \<^verbatim>\<open>fmt.Sprintf\<close>.
\<close>

text \<open>\<^verbatim>\<open>strings.Split(s, sep)\<close> for a one-character separator: the pieces between
  the separators, in order; a string without separator gives one piece, the
  string itself (also for the empty string).\<close>

fun split_on :: "char \<Rightarrow> string \<Rightarrow> string list" where
  "split_on c [] = [[]]"
| "split_on c (x # xs) =
     (if x = c then [] # split_on c xs
      else (case split_on c xs of
              [] \<Rightarrow> [[x]]
            | p # ps \<Rightarrow> (x # p) # ps))"

text \<open>\<^verbatim>\<open>strings.Join(parts, sep)\<close>.\<close>

fun join :: "string \<Rightarrow> string list \<Rightarrow> string" where
  "join sep [] = []"
| "join sep [p] = p"
| "join sep (p # p' # ps) = p @ sep @ join sep (p' # ps)"

text \<open>\<^verbatim>\<open>strings.ToUpper\<close>. On a string of ASCII bytes the letters a to z are
  replaced by A to Z and every other byte is kept. On a string with a byte
  outside ASCII Go decodes UTF-8 and applies the Unicode upper-case mapping
  rune by rune (which, for instance, sends U+0131 to \<open>I\<close> and U+017F to \<open>S\<close>);
  the Unicode tables are not part of this theory, so the result on such a
  string is left unspecified: it is some function of the string, about which
  nothing is assumed.\<close>

definition upper_char :: "char \<Rightarrow> char" where
  "upper_char c =
     (case map_of (zip ''abcdefghijklmnopqrstuvwxyz'' ''ABCDEFGHIJKLMNOPQRSTUVWXYZ'') c of
        Some u \<Rightarrow> u
      | None \<Rightarrow> c)"

definition is_ascii :: "char \<Rightarrow> bool" where
  "is_ascii c = (\<not> digit7 c)"

definition ToUpper :: "string \<Rightarrow> string" where
  "ToUpper s = (if list_all is_ascii s then map upper_char s else undefined s)"

text \<open>Decimal rendering of an integer, the \<^verbatim>\<open>%d\<close> verb.\<close>

definition digit_char :: "nat \<Rightarrow> char" where
  "digit_char d = ''0123456789'' ! d"

fun show_nat :: "nat \<Rightarrow> string" where
  "show_nat n = (if n < 10 then [digit_char n]
                 else show_nat (n div 10) @ [digit_char (n mod 10)])"

declare show_nat.simps [simp del]

definition show_int :: "int \<Rightarrow> string" where
  "show_int i = (if i < 0 then ''-'' @ show_nat (nat (- i)) else show_nat (nat i))"


section \<open>Dialects\<close>

text \<open>The \<^verbatim>\<open>Dialect\<close> interface: any pair of the two methods is a dialect.\<close>

record Dialect =
  Placeholder :: "int \<Rightarrow> string"
  QuoteIdentifier :: "string \<Rightarrow> string"

definition PostgresDialect :: Dialect where
  "PostgresDialect =
     \<lparr> Placeholder = (\<lambda>index. ''$'' @ show_int index),
       QuoteIdentifier = (\<lambda>name. [CHR 0x22] @ name @ [CHR 0x22]) \<rparr>"

definition MySQLDialect :: Dialect where
  "MySQLDialect =
     \<lparr> Placeholder = (\<lambda>index. ''?''),
       QuoteIdentifier = (\<lambda>name. ''`'' @ name @ ''`'') \<rparr>"

definition OracleDialect :: Dialect where
  "OracleDialect =
     \<lparr> Placeholder = (\<lambda>index. '':'' @ show_int index),
       QuoteIdentifier = (\<lambda>name. [CHR 0x22] @ name @ [CHR 0x22]) \<rparr>"


section \<open>Data model\<close>

text \<open>A bound argument is a value of Go's \<^verbatim>\<open>interface{}\<close>: the integers that
  \<^verbatim>\<open>buildLimitOffset\<close> appends, or any other value the caller supplies.\<close>

datatype 'v val = IntV int | AnyV 'v

record ColumnRef =
  TableAlias :: string
  ColumnName :: string

text \<open>\<^verbatim>\<open>Col\<close>: the reference is cut at its dots, and only a reference with
  exactly two pieces is read as alias and column.\<close>

definition Col :: "string \<Rightarrow> ColumnRef" where
  "Col ref =
     (let parts = split_on (CHR ''.'') ref in
      if length parts = 2 then \<lparr> TableAlias = parts ! 0, ColumnName = parts ! 1 \<rparr>
      else \<lparr> TableAlias = '''', ColumnName = ref \<rparr>)"

record JoinCondition =
  Left :: ColumnRef
  Op :: string
  Right :: ColumnRef

record Join =
  Type :: string
  Table :: string
  Alias :: string
  Condition :: JoinCondition

record 'v Filter =
  Column :: ColumnRef
  Op :: string
  Value :: "'v val"

datatype 'v FilterGroup =
  FilterGroup (Operator: string) (Filters: "'v Filter list") (Groups: "'v FilterGroup list")

record Sort =
  Column :: ColumnRef
  Dir :: string

text \<open>\<^verbatim>\<open>LastSeen\<close> is only ever read by key, so the nil map and the empty map
  are the same \<open>Map.empty\<close>.\<close>

record 'v Pagination =
  Type :: string
  LastSeen :: "string \<rightharpoonup> 'v val"

text \<open>The errors of the package, one constructor for each message the code
  builds; \<open>message\<close> gives the text of the Go error. \<open>Reserved\<close> stands for an
  error placed in the \<^verbatim>\<open>errors\<close> field of the query, which no public method
  fills.\<close>

datatype error =
    BaseTableRequired
  | InvalidBaseTable string
  | JoinAliasRequired
  | DuplicateAlias string
  | UnknownRef string string
  | InvalidColumn error
  | InvalidSortColumn error
  | InvalidSortDirection string
  | InvalidJoinType string
  | InvalidJoinTable string
  | InvalidJoinLeftColumn error
  | InvalidJoinRightColumn error
  | FilterDepthExceeded
  | InvalidLogicalOperator
  | InvalidOperator string
  | Reserved string

fun message :: "error \<Rightarrow> string" where
  "message BaseTableRequired = ''base table required''"
| "message (InvalidBaseTable t) = ''invalid base table: '' @ t"
| "message JoinAliasRequired = ''join alias required''"
| "message (DuplicateAlias a) = ''duplicate alias: '' @ a"
| "message (UnknownRef a c) = a @ ''.'' @ c"
| "message (InvalidColumn e) = ''invalid column: '' @ message e"
| "message (InvalidSortColumn e) = ''invalid sort column: '' @ message e"
| "message (InvalidSortDirection d) = ''invalid sort direction: '' @ d"
| "message (InvalidJoinType t) = ''invalid join type: '' @ t"
| "message (InvalidJoinTable t) = ''invalid join table: '' @ t"
| "message (InvalidJoinLeftColumn e) = ''invalid join left column: '' @ message e"
| "message (InvalidJoinRightColumn e) = ''invalid join right column: '' @ message e"
| "message FilterDepthExceeded = ''filter depth exceeded''"
| "message InvalidLogicalOperator = ''invalid logical operator''"
| "message (InvalidOperator op) = ''invalid operator: '' @ op"
| "message (Reserved m) = m"

text \<open>The validation schema \<^verbatim>\<open>map[string]map[string]bool\<close>; the field of the
  query is \<open>None\<close> for the nil map.\<close>

type_synonym schema = "string \<rightharpoonup> (string \<rightharpoonup> bool)"

record 'v Query =
  dialect :: Dialect
  allowedSchema :: "schema option"
  baseTable :: string
  baseAlias :: string
  projections :: "ColumnRef list"
  joins :: "Join list"
  where' :: "'v FilterGroup option"
  sorts :: "Sort list"
  limit :: int
  offset :: int
  pagination :: "'v Pagination"
  isCount :: bool
  errors :: "error list"

definition maxFilterDepth :: nat where
  "maxFilterDepth = 10"

definition allowedOperators :: "string list" where
  "allowedOperators =
     [''='', ''!='', ''>'', ''<'', ''>='', ''<='', ''IN'', ''LIKE'', ''IS'', ''IS NOT'']"

definition allowedJoinTypes :: "string list" where
  "allowedJoinTypes = [''INNER'', ''LEFT'', ''RIGHT'', ''FULL'', ''CROSS'']"

definition allowedSortDir :: "string list" where
  "allowedSortDir = [''ASC'', ''DESC'']"


section \<open>The fluent configuration methods\<close>

text \<open>Each method mutates the query and returns it; here it maps the old state
  to the new one. \<^verbatim>\<open>Join\<close> is \<open>AddJoin\<close>, the name being taken by the record.\<close>

definition New :: "Dialect \<Rightarrow> 'v Query" where
  "New d =
     \<lparr> dialect = d, allowedSchema = None, baseTable = '''', baseAlias = '''',
       projections = [], joins = [], where' = None, sorts = [], limit = 0, offset = 0,
       pagination = \<lparr> Type = '''', LastSeen = Map.empty \<rparr>, isCount = False,
       errors = [] \<rparr>"

definition WithSchema :: "schema option \<Rightarrow> 'v Query \<Rightarrow> 'v Query" where
  "WithSchema sch q = q\<lparr> allowedSchema := sch \<rparr>"

definition From :: "string \<Rightarrow> string \<Rightarrow> 'v Query \<Rightarrow> 'v Query" where
  "From table alias q = q\<lparr> baseTable := table, baseAlias := alias \<rparr>"

definition Select :: "string list \<Rightarrow> 'v Query \<Rightarrow> 'v Query" where
  "Select columns q = q\<lparr> projections := projections q @ map Col columns \<rparr>"

definition Count :: "'v Query \<Rightarrow> 'v Query" where
  "Count q = q\<lparr> isCount := True \<rparr>"

definition AddJoin ::
  "string \<Rightarrow> string \<Rightarrow> string \<Rightarrow> string \<Rightarrow> string \<Rightarrow> string \<Rightarrow> 'v Query \<Rightarrow> 'v Query" where
  "AddJoin joinType table alias left right op q =
     q\<lparr> joins := joins q @
          [\<lparr> Join.Type = joinType, Table = table, Alias = alias,
             Condition = \<lparr> Left = Col left, JoinCondition.Op = op, Right = Col right \<rparr> \<rparr>] \<rparr>"

definition F :: "string \<Rightarrow> string \<Rightarrow> 'v val \<Rightarrow> 'v Filter" where
  "F ref op v = \<lparr> Filter.Column = Col ref, Op = op, Value = v \<rparr>"

definition Where :: "'v FilterGroup option \<Rightarrow> 'v Query \<Rightarrow> 'v Query" where
  "Where g q = q\<lparr> where' := g \<rparr>"

text \<open>The body shared by \<^verbatim>\<open>Eq\<close> and \<^verbatim>\<open>In\<close>: a new AND group when there
  is no root group, else the filter is appended to the root group's filters.\<close>

definition add_filter :: "'v Filter \<Rightarrow> 'v Query \<Rightarrow> 'v Query" where
  "add_filter f q =
     (case where' q of
        None \<Rightarrow> q\<lparr> where' := Some (FilterGroup ''AND'' [f] []) \<rparr>
      | Some (FilterGroup op fs gs) \<Rightarrow> q\<lparr> where' := Some (FilterGroup op (fs @ [f]) gs) \<rparr>)"

definition Eq :: "string \<Rightarrow> 'v val \<Rightarrow> 'v Query \<Rightarrow> 'v Query" where
  "Eq ref v q = add_filter (F ref ''='' v) q"


definition OrderBy :: "string \<Rightarrow> string \<Rightarrow> 'v Query \<Rightarrow> 'v Query" where
  "OrderBy column dir q =
     q\<lparr> sorts := sorts q @ [\<lparr> Column = Col column, Dir = ToUpper dir \<rparr>] \<rparr>"

definition Limit :: "int \<Rightarrow> 'v Query \<Rightarrow> 'v Query" where
  "Limit n q = q\<lparr> limit := n \<rparr>"

definition Offset :: "int \<Rightarrow> 'v Query \<Rightarrow> 'v Query" where
  "Offset n q = q\<lparr> offset := n, pagination := (pagination q)\<lparr> Type := ''offset'' \<rparr> \<rparr>"

definition KeysetPagination :: "(string \<rightharpoonup> 'v val) \<Rightarrow> 'v Query \<Rightarrow> 'v Query" where
  "KeysetPagination lastSeen q =
     q\<lparr> pagination := \<lparr> Type = ''keyset'', LastSeen = lastSeen \<rparr> \<rparr>"

section \<open>Validation\<close>

text \<open>The methods of \<^verbatim>\<open>*Query\<close> keep their receiver \<open>q\<close> as first argument.
  A function that returns \<^verbatim>\<open>error\<close> alone gives \<open>error option\<close> (\<open>None\<close> for
  nil); one that returns a value and an error gives a sum, \<open>Inl\<close> the error.
  The \<^verbatim>\<open>strings.Builder\<close> and the argument slice that the code passes by
  pointer are passed in and returned.\<close>

definition validateBase :: "'v Query \<Rightarrow> schema option \<Rightarrow> error option" where
  "validateBase q sch =
     (if baseTable q = '''' then Some BaseTableRequired
      else (case sch of
              None \<Rightarrow> None
            | Some s \<Rightarrow> (case s (baseTable q) of
                          None \<Rightarrow> Some (InvalidBaseTable (baseTable q))
                        | Some cols \<Rightarrow> None)))"

definition getBaseAlias :: "'v Query \<Rightarrow> string" where
  "getBaseAlias q = (if baseAlias q \<noteq> '''' then baseAlias q else baseTable q)"

text \<open>The loop of \<^verbatim>\<open>registerAliases\<close> over the joins.\<close>

fun registerAliases_loop :: "Join list \<Rightarrow> (string \<rightharpoonup> string) \<Rightarrow> error + (string \<rightharpoonup> string)" where
  "registerAliases_loop [] aliasMap = Inr aliasMap"
| "registerAliases_loop (j # js) aliasMap =
     (if Alias j = '''' then Inl JoinAliasRequired
      else if aliasMap (Alias j) \<noteq> None then Inl (DuplicateAlias (Alias j))
      else registerAliases_loop js (aliasMap(Alias j \<mapsto> Table j)))"

definition registerAliases :: "'v Query \<Rightarrow> error + (string \<rightharpoonup> string)" where
  "registerAliases q =
     registerAliases_loop (joins q) (Map.empty(getBaseAlias q \<mapsto> baseTable q))"

text \<open>\<^verbatim>\<open>schema[tableName][columnName]\<close>: false for a missing table, a missing
  column, and a column stored with the value false.\<close>

definition schema_lookup :: "schema \<Rightarrow> string \<Rightarrow> string \<Rightarrow> bool" where
  "schema_lookup s t c =
     (case s t of
        None \<Rightarrow> False
      | Some cols \<Rightarrow> (case cols c of None \<Rightarrow> False | Some b \<Rightarrow> b))"

definition validateCol ::
  "'v Query \<Rightarrow> ColumnRef \<Rightarrow> (string \<rightharpoonup> string) \<Rightarrow> schema option \<Rightarrow> error option" where
  "validateCol q ref aliasMap sch =
     (case sch of
        None \<Rightarrow> None
      | Some s \<Rightarrow>
          (case aliasMap (TableAlias ref) of
             None \<Rightarrow> Some (UnknownRef (TableAlias ref) (ColumnName ref))
           | Some tableName \<Rightarrow>
               if \<not> schema_lookup s tableName (ColumnName ref)
               then Some (UnknownRef (TableAlias ref) (ColumnName ref))
               else None))"

definition validateJoin ::
  "'v Query \<Rightarrow> Join \<Rightarrow> (string \<rightharpoonup> string) \<Rightarrow> schema option \<Rightarrow> error option" where
  "validateJoin q j aliasMap sch =
     (if ToUpper (Join.Type j) \<notin> set allowedJoinTypes then Some (InvalidJoinType (Join.Type j))
      else (case sch of
              None \<Rightarrow> None
            | Some s \<Rightarrow>
                (case s (Table j) of
                   None \<Rightarrow> Some (InvalidJoinTable (Table j))
                 | Some cols \<Rightarrow>
                     (case validateCol q (Left (Condition j)) aliasMap sch of
                        Some err \<Rightarrow> Some (InvalidJoinLeftColumn err)
                      | None \<Rightarrow>
                          (case validateCol q (Right (Condition j)) aliasMap sch of
                             Some err \<Rightarrow> Some (InvalidJoinRightColumn err)
                           | None \<Rightarrow> None)))))"


section \<open>The rendering phases\<close>

text \<open>\<^verbatim>\<open>fmt.Sprintf("%s.%s", alias, column)\<close>.\<close>

definition dotted :: "ColumnRef \<Rightarrow> string" where
  "dotted ref = TableAlias ref @ ''.'' @ ColumnName ref"

fun buildProjections_loop ::
  "'v Query \<Rightarrow> ColumnRef list \<Rightarrow> string list \<Rightarrow> (string \<rightharpoonup> string) \<Rightarrow> schema option
     \<Rightarrow> error + string list" where
  "buildProjections_loop q [] cols aliasMap sch = Inr cols"
| "buildProjections_loop q (p # ps) cols aliasMap sch =
     (case validateCol q p aliasMap sch of
        Some err \<Rightarrow> Inl (InvalidColumn err)
      | None \<Rightarrow> buildProjections_loop q ps (cols @ [dotted p]) aliasMap sch)"

definition buildProjections ::
  "'v Query \<Rightarrow> string \<Rightarrow> (string \<rightharpoonup> string) \<Rightarrow> schema option \<Rightarrow> string \<Rightarrow> error + string" where
  "buildProjections q sb aliasMap sch baseAlias' =
     (let sb1 = sb @ ''SELECT '' in
      if projections q = [] then Inr (sb1 @ baseAlias' @ ''.*'')
      else (case buildProjections_loop q (projections q) [] aliasMap sch of
              Inl err \<Rightarrow> Inl err
            | Inr cols \<Rightarrow> Inr (sb1 @ join '', '' cols)))"

fun buildJoins_loop ::
  "'v Query \<Rightarrow> Join list \<Rightarrow> string \<Rightarrow> (string \<rightharpoonup> string) \<Rightarrow> schema option \<Rightarrow> error + string" where
  "buildJoins_loop q [] sb aliasMap sch = Inr sb"
| "buildJoins_loop q (j # js) sb aliasMap sch =
     (case validateJoin q j aliasMap sch of
        Some err \<Rightarrow> Inl err
      | None \<Rightarrow>
          buildJoins_loop q js
            (sb @ '' '' @ ToUpper (Join.Type j) @ '' JOIN '' @ Table j @ '' '' @ Alias j
                @ '' ON '' @ dotted (Left (Condition j)) @ '' '' @ JoinCondition.Op (Condition j)
                @ '' '' @ dotted (Right (Condition j)))
            aliasMap sch)"

definition buildJoins ::
  "'v Query \<Rightarrow> string \<Rightarrow> (string \<rightharpoonup> string) \<Rightarrow> schema option \<Rightarrow> error + string" where
  "buildJoins q sb aliasMap sch = buildJoins_loop q (joins q) sb aliasMap sch"

text \<open>\<^verbatim>\<open>collectFilters\<close>: the loop carries the parts and the argument list; each
  filter appends its value first and then asks the dialect for the placeholder
  of the new length.\<close>

fun collectFilters_loop ::
  "'v Query \<Rightarrow> 'v Filter list \<Rightarrow> string list \<Rightarrow> 'v val list \<Rightarrow> (string \<rightharpoonup> string)
     \<Rightarrow> schema option \<Rightarrow> error + (string list \<times> 'v val list)" where
  "collectFilters_loop q [] parts args aliasMap sch = Inr (parts, args)"
| "collectFilters_loop q (f # fs) parts args aliasMap sch =
     (case validateCol q (Filter.Column f) aliasMap sch of
        Some err \<Rightarrow> Inl (InvalidColumn err)
      | None \<Rightarrow>
          if ToUpper (Filter.Op f) \<notin> set allowedOperators then Inl (InvalidOperator (Filter.Op f))
          else (let args1 = args @ [Value f] in
                collectFilters_loop q fs
                  (parts @ [dotted (Filter.Column f) @ '' '' @ Filter.Op f @ '' ''
                             @ Placeholder (dialect q) (int (length args1))])
                  args1 aliasMap sch))"

definition collectFilters ::
  "'v Query \<Rightarrow> 'v Filter list \<Rightarrow> 'v val list \<Rightarrow> (string \<rightharpoonup> string) \<Rightarrow> schema option
     \<Rightarrow> error + (string list \<times> 'v val list)" where
  "collectFilters q filters args aliasMap sch = collectFilters_loop q filters [] args aliasMap sch"

text \<open>\<^verbatim>\<open>buildFilterGroup\<close>, with the loop over the nested groups as a second,
  mutually recursive function.\<close>

fun buildFilterGroup ::
  "'v Query \<Rightarrow> 'v FilterGroup \<Rightarrow> 'v val list \<Rightarrow> (string \<rightharpoonup> string) \<Rightarrow> nat \<Rightarrow> schema option
     \<Rightarrow> error + (string \<times> 'v val list)"
and buildFilterGroup_loop ::
  "'v Query \<Rightarrow> 'v FilterGroup list \<Rightarrow> string list \<Rightarrow> 'v val list \<Rightarrow> (string \<rightharpoonup> string) \<Rightarrow> nat
     \<Rightarrow> schema option \<Rightarrow> error + (string list \<times> 'v val list)" where
  "buildFilterGroup q (FilterGroup operator filters groups) args aliasMap depth sch =
     (if depth > maxFilterDepth then Inl FilterDepthExceeded
      else (let op = ToUpper operator in
            if op \<noteq> ''AND'' \<and> op \<noteq> ''OR'' then Inl InvalidLogicalOperator
            else (case collectFilters q filters args aliasMap sch of
                    Inl err \<Rightarrow> Inl err
                  | Inr (parts, args1) \<Rightarrow>
                      (case buildFilterGroup_loop q groups parts args1 aliasMap (depth + 1) sch of
                         Inl err \<Rightarrow> Inl err
                       | Inr (parts2, args2) \<Rightarrow>
                           if parts2 = [] then Inr ('''', args2)
                           else Inr (join ('' '' @ op @ '' '') parts2, args2)))))"
| "buildFilterGroup_loop q [] parts args aliasMap depth sch = Inr (parts, args)"
| "buildFilterGroup_loop q (subGroup # rest) parts args aliasMap depth sch =
     (case buildFilterGroup q subGroup args aliasMap depth sch of
        Inl err \<Rightarrow> Inl err
      | Inr (sub, args1) \<Rightarrow>
          buildFilterGroup_loop q rest
            (if sub \<noteq> '''' then parts @ [''('' @ sub @ '')''] else parts)
            args1 aliasMap depth sch)"

definition buildKeysetPagination ::
  "'v Query \<Rightarrow> 'v val list \<Rightarrow> bool \<Rightarrow> error + (string \<times> 'v val list)" where
  "buildKeysetPagination q args hasWhere =
     (if Pagination.Type (pagination q) \<noteq> ''keyset'' then Inr ('''', args)
      else (case sorts q of
              [] \<Rightarrow> Inr ('''', args)
            | s # rest \<Rightarrow>
                (let col = Sort.Column s; key = TableAlias col @ ''.'' @ ColumnName col in
                 case LastSeen (pagination q) key of
                   None \<Rightarrow> Inr ('''', args)
                 | Some v \<Rightarrow>
                     (let op = (if ToUpper (Dir s) = ''DESC'' then ''<'' else ''>'');
                          args1 = args @ [v]
                      in Inr (dotted col @ '' '' @ op @ '' ''
                                @ Placeholder (dialect q) (int (length args1)), args1)))))"

definition buildFilters ::
  "'v Query \<Rightarrow> string \<Rightarrow> 'v val list \<Rightarrow> (string \<rightharpoonup> string) \<Rightarrow> schema option
     \<Rightarrow> error + (string \<times> 'v val list)" where
  "buildFilters q sb args aliasMap sch =
     (case (case where' q of
              None \<Rightarrow> Inr (sb, args, False)
            | Some g \<Rightarrow>
                (case buildFilterGroup q g args aliasMap 0 sch of
                   Inl err \<Rightarrow> Inl err
                 | Inr (whereClause, args1) \<Rightarrow>
                     if whereClause \<noteq> '''' then Inr (sb @ '' WHERE '' @ whereClause, args1, True)
                     else Inr (sb, args1, False))) of
        Inl err \<Rightarrow> Inl err
      | Inr (sb1, args1, hasWhere) \<Rightarrow>
          if Pagination.Type (pagination q) = ''keyset'' \<and> sorts q \<noteq> [] then
            (case buildKeysetPagination q args1 hasWhere of
               Inl err \<Rightarrow> Inl err
             | Inr (keysetClause, args2) \<Rightarrow>
                 if keysetClause \<noteq> '''' then
                   Inr (sb1 @ (if \<not> hasWhere then '' WHERE '' else '' AND '') @ keysetClause, args2)
                 else Inr (sb1, args2))
          else Inr (sb1, args1))"

fun buildOrderBy_loop ::
  "'v Query \<Rightarrow> Sort list \<Rightarrow> string list \<Rightarrow> (string \<rightharpoonup> string) \<Rightarrow> schema option
     \<Rightarrow> error + string list" where
  "buildOrderBy_loop q [] sortParts aliasMap sch = Inr sortParts"
| "buildOrderBy_loop q (s # ss) sortParts aliasMap sch =
     (case validateCol q (Sort.Column s) aliasMap sch of
        Some err \<Rightarrow> Inl (InvalidSortColumn err)
      | None \<Rightarrow>
          (let dir = ToUpper (Dir s) in
           if dir \<notin> set allowedSortDir then Inl (InvalidSortDirection (Dir s))
           else buildOrderBy_loop q ss (sortParts @ [dotted (Sort.Column s) @ '' '' @ dir])
                  aliasMap sch))"

definition buildOrderBy ::
  "'v Query \<Rightarrow> string \<Rightarrow> (string \<rightharpoonup> string) \<Rightarrow> schema option \<Rightarrow> error + string" where
  "buildOrderBy q sb aliasMap sch =
     (if sorts q = [] then Inr sb
      else (case buildOrderBy_loop q (sorts q) [] aliasMap sch of
              Inl err \<Rightarrow> Inl err
            | Inr sortParts \<Rightarrow> Inr (sb @ '' ORDER BY '' @ join '', '' sortParts)))"

definition buildLimitOffset :: "'v Query \<Rightarrow> string \<Rightarrow> 'v val list \<Rightarrow> string \<times> 'v val list" where
  "buildLimitOffset q sb args =
     (if limit q \<le> 0 then (sb, args)
      else if Pagination.Type (pagination q) = ''keyset'' \<or> Placeholder (dialect q) 1 = '':1'' then
        (let args1 = args @ [IntV (limit q)] in
         (sb @ '' FETCH NEXT '' @ Placeholder (dialect q) (int (length args1)) @ '' ROWS ONLY'', args1))
      else
        (let args1 = args @ [IntV (limit q)];
             sb1 = sb @ '' LIMIT '' @ Placeholder (dialect q) (int (length args1))
         in if offset q > 0 then
              (let args2 = args1 @ [IntV (offset q)] in
               (sb1 @ '' OFFSET '' @ Placeholder (dialect q) (int (length args2)), args2))
            else (sb1, args1)))"


section \<open>Build\<close>

text \<open>\<^verbatim>\<open>Build\<close> returns the triple of the code: the SQL text, the arguments and
  the error (\<open>None\<close> for nil). The nil slice and the empty slice are both \<open>[]\<close>.\<close>

definition Build :: "'v Query \<Rightarrow> string \<times> 'v val list \<times> error option" where
  "Build q =
     (case errors q of
        e # es \<Rightarrow> ('''', [], Some e)
      | [] \<Rightarrow>
     (case validateBase q (allowedSchema q) of
        Some err \<Rightarrow> ('''', [], Some err)
      | None \<Rightarrow>
     (case registerAliases q of
        Inl err \<Rightarrow> ('''', [], Some err)
      | Inr aliasMap \<Rightarrow>
     (case (if isCount q then Inr ''SELECT COUNT(*)''
            else buildProjections q [] aliasMap (allowedSchema q) (getBaseAlias q)) of
        Inl err \<Rightarrow> ('''', [], Some err)
      | Inr sb1 \<Rightarrow>
     (let sb2 = sb1 @ '' FROM '' @ baseTable q @ '' '' @ getBaseAlias q in
      case buildJoins q sb2 aliasMap (allowedSchema q) of
        Inl err \<Rightarrow> ('''', [], Some err)
      | Inr sb3 \<Rightarrow>
     (case buildFilters q sb3 [] aliasMap (allowedSchema q) of
        Inl err \<Rightarrow> ('''', [], Some err)
      | Inr (sb4, args) \<Rightarrow>
          if isCount q then (sb4, args, None)
          else
     (case buildOrderBy q sb4 aliasMap (allowedSchema q) of
        Inl err \<Rightarrow> ('''', [], Some err)
      | Inr sb5 \<Rightarrow>
          (case buildLimitOffset q sb5 args of
             (sb6, args1) \<Rightarrow> (sb6, args1, None)))))))))"

section \<open>The output with its placeholders kept symbolic\<close>

text \<open>
  To count the placeholders of a statement and to say which argument each one
  binds, the functions that append arguments are given a second time with the
  output as a list of pieces: literal text, and one \<open>Param i v\<close> wherever the
  code calls \<^verbatim>\<open>q.dialect.Placeholder(i)\<close>, \<open>v\<close> being the value it has just
  appended. Tests and control flow are those of the functions above (a test of
  a rendered string is made on the rendering of the pieces); \<open>render\<close> maps the
  pieces back to the text.
\<close>

datatype 'v piece = Lit string | Param int "'v val"

fun render_piece :: "Dialect \<Rightarrow> 'v piece \<Rightarrow> string" where
  "render_piece d (Lit s) = s"
| "render_piece d (Param i v) = Placeholder d i"

definition render :: "Dialect \<Rightarrow> 'v piece list \<Rightarrow> string" where
  "render d ps = concat (map (render_piece d) ps)"

fun params :: "'v piece list \<Rightarrow> (int \<times> 'v val) list" where
  "params [] = []"
| "params (Lit s # ps) = params ps"
| "params (Param i v # ps) = (i, v) # params ps"










section \<open>Notions used to state the properties\<close>

text \<open>The number of levels of groups nested below a group: 0 for a group
  without nested groups.\<close>

fun nesting :: "'v FilterGroup \<Rightarrow> nat"
and nesting_list :: "'v FilterGroup list \<Rightarrow> nat" where
  "nesting (FilterGroup operator filters groups) = nesting_list groups"
| "nesting_list [] = 0"
| "nesting_list (g # gs) = max (Suc (nesting g)) (nesting_list gs)"

text \<open>A filter tree in which nothing but the depth can fail: every group has
  the operator AND or OR, every filter an allowed operator and a column that
  passes \<open>validateCol\<close>.\<close>

definition filter_ok ::
  "'v Query \<Rightarrow> (string \<rightharpoonup> string) \<Rightarrow> schema option \<Rightarrow> 'v Filter \<Rightarrow> bool" where
  "filter_ok q aliasMap sch f \<longleftrightarrow>
     validateCol q (Filter.Column f) aliasMap sch = None \<and>
     ToUpper (Filter.Op f) \<in> set allowedOperators"

fun group_ok :: "'v Query \<Rightarrow> (string \<rightharpoonup> string) \<Rightarrow> schema option \<Rightarrow> 'v FilterGroup \<Rightarrow> bool"
and groups_ok ::
  "'v Query \<Rightarrow> (string \<rightharpoonup> string) \<Rightarrow> schema option \<Rightarrow> 'v FilterGroup list \<Rightarrow> bool" where
  "group_ok q aliasMap sch (FilterGroup operator filters groups) \<longleftrightarrow>
     (ToUpper operator = ''AND'' \<or> ToUpper operator = ''OR'') \<and>
     list_all (filter_ok q aliasMap sch) filters \<and>
     groups_ok q aliasMap sch groups"
| "groups_ok q aliasMap sch [] \<longleftrightarrow> True"
| "groups_ok q aliasMap sch (g # gs) \<longleftrightarrow>
     group_ok q aliasMap sch g \<and> groups_ok q aliasMap sch gs"

text \<open>The pieces \<open>ps\<close> were emitted while the argument list grew from \<open>args\<close>
  to \<open>args'\<close>: the values of the placeholders of \<open>ps\<close>, in textual order, are
  the arguments that were added, and their indices count on from the length
  of \<open>args\<close>, so each index is the length of the list right after its value
  was appended.\<close>

definition numbered :: "'v val list \<Rightarrow> 'v piece list \<Rightarrow> 'v val list \<Rightarrow> bool" where
  "numbered args ps args' \<longleftrightarrow>
     args' = args @ map snd (params ps) \<and>
     map fst (params ps) = map int [Suc (length args) ..< Suc (length args')]"

text \<open>The error of a result, and the errors of the phases of \<open>Build\<close> in the
  order in which it runs them, each phase started on an empty builder and an
  empty argument list; a count query has no projection and no ORDER BY phase.\<close>

definition err_of :: "error + 'a \<Rightarrow> error option" where
  "err_of r = (case r of Inl e \<Rightarrow> Some e | Inr x \<Rightarrow> None)"

definition phase_errors :: "'v Query \<Rightarrow> error option list" where
  "phase_errors q =
     [case errors q of [] \<Rightarrow> None | e # es \<Rightarrow> Some e,
      validateBase q (allowedSchema q)] @
     (case registerAliases q of
        Inl e \<Rightarrow> [Some e]
      | Inr aliasMap \<Rightarrow>
          [if isCount q then None
           else err_of (buildProjections q [] aliasMap (allowedSchema q) (getBaseAlias q)),
           err_of (buildJoins q [] aliasMap (allowedSchema q)),
           err_of (buildFilters q [] [] aliasMap (allowedSchema q)),
           if isCount q then None else err_of (buildOrderBy q [] aliasMap (allowedSchema q))])"

fun first_error :: "error option list \<Rightarrow> error option" where
  "first_error [] = None"
| "first_error (None # es) = first_error es"
| "first_error (Some e # es) = Some e"


section \<open>Example queries\<close>

text \<open>The queries of the scenarios, built with the fluent methods. The
  caller's values are integers here, so the type of other values is \<open>unit\<close>.\<close>

definition users_u :: "Dialect \<Rightarrow> unit Query" where
  "users_u d = From ''users'' ''u'' (New d)"

definition offset_query :: "unit Query" where
  "offset_query = Offset 5 (Limit 10 (Select [''u.id''] (users_u PostgresDialect)))"

definition keyset_query :: "unit Query" where
  "keyset_query =
     Limit 10 (KeysetPagination [''u.id'' \<mapsto> IntV 42]
       (OrderBy ''u.id'' ''ASC'' (users_u MySQLDialect)))"

definition count_query :: "unit Query" where
  "count_query =
     Limit 10 (OrderBy ''u.id'' ''DESC'' (Count (Eq ''u.age'' (IntV 30) (users_u PostgresDialect))))"

definition colliding_joins_query :: "unit Query" where
  "colliding_joins_query =
     AddJoin ''INNER'' ''customers'' '''' ''u.id'' ''c.user_id'' ''=''
       (AddJoin ''INNER'' ''orders'' ''u'' ''u.id'' ''o.id'' ''='' (users_u PostgresDialect))"

fun nested_chain :: "nat \<Rightarrow> unit FilterGroup" where
  "nested_chain 0 = FilterGroup ''AND'' [F ''u.id'' ''='' (IntV 1)] []"
| "nested_chain (Suc n) = FilterGroup ''AND'' [] [nested_chain n]"

definition users_schema :: schema where
  "users_schema = [''users'' \<mapsto> [''id'' \<mapsto> True, ''name'' \<mapsto> True]]"

definition unchecked_keyset_query :: "unit Query" where
  "unchecked_keyset_query =
     KeysetPagination [''x.secret'' \<mapsto> IntV 1]
       (OrderBy ''x.secret'' ''ASC''
         (Count (WithSchema (Some users_schema) (users_u PostgresDialect))))"



section \<open>Which fields of the query each phase reads\<close>

text \<open>The validation functions and the loops do not read their receiver, or
  read its dialect only.\<close>

lemma validateCol_receiver: "validateCol q' ref am sch = validateCol q ref am sch"
  by (simp add: validateCol_def)

lemma validateJoin_receiver: "validateJoin q' j am sch = validateJoin q j am sch"
  by (simp add: validateJoin_def validateCol_def split: option.split)

lemma buildProjections_loop_receiver:
  "buildProjections_loop q' ps cols am sch = buildProjections_loop q ps cols am sch"
  by (induction ps arbitrary: cols) (simp_all add: validateCol_def split: option.split)

lemma buildJoins_loop_receiver:
  "buildJoins_loop q' js sb am sch = buildJoins_loop q js sb am sch"
  by (induction js arbitrary: sb)
     (simp_all add: validateJoin_receiver [of q' _ _ _ q] split: option.split)

lemma buildOrderBy_loop_receiver:
  "buildOrderBy_loop q' ss parts am sch = buildOrderBy_loop q ss parts am sch"
  by (induction ss arbitrary: parts) (simp_all add: validateCol_def Let_def split: option.split)

lemma collectFilters_loop_receiver:
  "dialect q' = dialect q \<Longrightarrow>
   collectFilters_loop q' fs parts args am sch = collectFilters_loop q fs parts args am sch"
  by (induction fs arbitrary: parts args)
     (simp_all add: validateCol_def Let_def split: option.split)

lemma collectFilters_receiver:
  "dialect q' = dialect q \<Longrightarrow>
   collectFilters q' fs args am sch = collectFilters q fs args am sch"
  by (simp add: collectFilters_def collectFilters_loop_receiver [of q' q])


lemma buildFilterGroup_receiver:
  "dialect q' = dialect q \<Longrightarrow>
   buildFilterGroup q' g args am depth sch = buildFilterGroup q g args am depth sch"
  "dialect q' = dialect q \<Longrightarrow>
   buildFilterGroup_loop q' gs parts args am depth sch
     = buildFilterGroup_loop q gs parts args am depth sch"
proof (induction q g args am depth sch and q gs parts args am depth sch
       rule: buildFilterGroup_buildFilterGroup_loop.induct)
  case (1 q operator filters groups args aliasMap depth sch)
  show ?case
  proof (cases "collectFilters q filters args aliasMap sch")
    case (Inl e)
    then show ?thesis
      using "1.prems" by (simp add: collectFilters_receiver [of q' q] Let_def)
  next
    case (Inr r)
    obtain parts args1 where r: "r = (parts, args1)" by (cases r)
    show ?thesis
    proof (cases "depth > maxFilterDepth \<or> (ToUpper operator \<noteq> ''AND'' \<and> ToUpper operator \<noteq> ''OR'')")
      case True
      then show ?thesis by auto
    next
      case False
      with "1.IH" [OF _ refl _ Inr r [symmetric]] "1.prems"
      have "buildFilterGroup_loop q' groups parts args1 aliasMap (depth + 1) sch
            = buildFilterGroup_loop q groups parts args1 aliasMap (depth + 1) sch"
        by simp
      with False Inr r "1.prems" show ?thesis
        by (auto simp add: collectFilters_receiver [of q' q] Let_def)
    qed
  qed
next
  case (2 q parts args aliasMap depth sch)
  then show ?case by simp
next
  case (3 q subGroup rest parts args aliasMap depth sch)
  show ?case
  proof (cases "buildFilterGroup q subGroup args aliasMap depth sch")
    case (Inl e)
    with "3.IH"(1) "3.prems" show ?thesis by simp
  next
    case (Inr r)
    obtain sub args1 where r: "r = (sub, args1)" by (cases r)
    from "3.IH"(2) [OF Inr r [symmetric]] "3.prems"
    have "buildFilterGroup_loop q' rest
            (if sub \<noteq> '''' then parts @ [''('' @ sub @ '')''] else parts) args1 aliasMap depth sch
        = buildFilterGroup_loop q rest
            (if sub \<noteq> '''' then parts @ [''('' @ sub @ '')''] else parts) args1 aliasMap depth sch"
      by simp
    with "3.IH"(1) "3.prems" Inr r show ?thesis by simp
  qed
qed


lemma validateBase_receiver:
  "baseTable q' = baseTable q \<Longrightarrow> validateBase q' sch = validateBase q sch"
  by (simp add: validateBase_def cong: option.case_cong)

lemma getBaseAlias_receiver:
  "baseTable q' = baseTable q \<Longrightarrow> baseAlias q' = baseAlias q \<Longrightarrow>
   getBaseAlias q' = getBaseAlias q"
  by (simp add: getBaseAlias_def)

lemma registerAliases_receiver:
  "baseTable q' = baseTable q \<Longrightarrow> baseAlias q' = baseAlias q \<Longrightarrow> joins q' = joins q \<Longrightarrow>
   registerAliases q' = registerAliases q"
  by (simp add: registerAliases_def getBaseAlias_def)

lemma buildProjections_receiver:
  "projections q' = projections q \<Longrightarrow>
   buildProjections q' sb am sch ba = buildProjections q sb am sch ba"
  by (simp add: buildProjections_def buildProjections_loop_receiver [of q' _ _ _ _ q] Let_def)

lemma buildJoins_receiver:
  "joins q' = joins q \<Longrightarrow> buildJoins q' sb am sch = buildJoins q sb am sch"
  by (simp add: buildJoins_def buildJoins_loop_receiver [of q' _ _ _ _ q])

lemma buildOrderBy_receiver:
  "sorts q' = sorts q \<Longrightarrow> buildOrderBy q' sb am sch = buildOrderBy q sb am sch"
  by (simp add: buildOrderBy_def buildOrderBy_loop_receiver [of q' _ _ _ _ q])

lemma buildKeysetPagination_receiver:
  "dialect q' = dialect q \<Longrightarrow> pagination q' = pagination q \<Longrightarrow> sorts q' = sorts q \<Longrightarrow>
   buildKeysetPagination q' args hasWhere = buildKeysetPagination q args hasWhere"
  by (simp add: buildKeysetPagination_def Let_def cong: list.case_cong option.case_cong)

lemma buildFilters_receiver:
  assumes "dialect q' = dialect q" "pagination q' = pagination q" "sorts q' = sorts q"
    "where' q' = where' q"
  shows "buildFilters q' sb args am sch = buildFilters q sb args am sch"
proof -
  have a: "buildKeysetPagination q' = buildKeysetPagination q"
    using assms by (intro ext buildKeysetPagination_receiver)
  have b: "buildFilterGroup q' = buildFilterGroup q"
    using assms by (intro ext buildFilterGroup_receiver)
  show ?thesis
    unfolding buildFilters_def a b assms ..
qed


section \<open>Errors leave no output\<close>

lemma buildLimitOffset_total: "\<exists>sb' args'. buildLimitOffset q sb args = (sb', args')"
  by (cases "buildLimitOffset q sb args") simp

lemma Build_error_shape:
  "Build q = (sql, args, Some e) \<Longrightarrow> sql = '''' \<and> args = []"
  by (auto simp add: Build_def Let_def
      split: list.splits option.splits sum.splits prod.splits if_splits)

lemma Build_preaccumulated: "errors q = e # es \<Longrightarrow> Build q = ('''', [], Some e)"
  by (simp add: Build_def)

lemma Build_validateBase_fails:
  "errors q = [] \<Longrightarrow> validateBase q (allowedSchema q) = Some e \<Longrightarrow> Build q = ('''', [], Some e)"
  by (simp add: Build_def)

lemma Build_registerAliases_fails:
  "errors q = [] \<Longrightarrow> validateBase q (allowedSchema q) = None \<Longrightarrow> registerAliases q = Inl e \<Longrightarrow>
   Build q = ('''', [], Some e)"
  by (simp add: Build_def)

lemma Build_fails_if_registerAliases_fails:
  assumes "registerAliases q = Inl e"
  shows "\<exists>e'. Build q = ('''', [], Some e')"
proof (cases "errors q")
  case Nil
  show ?thesis
  proof (cases "validateBase q (allowedSchema q)")
    case None
    with Nil assms show ?thesis by (simp add: Build_registerAliases_fails)
  next
    case (Some e')
    with Nil show ?thesis by (simp add: Build_validateBase_fails)
  qed
next
  case (Cons e' es)
  then show ?thesis by (simp add: Build_preaccumulated)
qed

section \<open>Alias registration\<close>

lemma registerAliases_loop_success:
  "registerAliases_loop js am = Inr am' \<Longrightarrow>
   '''' \<notin> Alias ` set js \<and> distinct (map Alias js) \<and> Alias ` set js \<inter> dom am = {}"
proof (induction js arbitrary: am)
  case Nil
  then show ?case by simp
next
  case (Cons j js)
  from Cons.prems have a: "Alias j \<noteq> ''''" and b: "am (Alias j) = None"
    and c: "registerAliases_loop js (am(Alias j \<mapsto> Table j)) = Inr am'"
    by (auto split: if_splits)
  from Cons.IH [OF c] a b show ?case by auto
qed

lemma registerAliases_loop_prefix:
  "'''' \<notin> Alias ` set pre \<Longrightarrow> distinct (map Alias pre) \<Longrightarrow> Alias ` set pre \<inter> dom am = {} \<Longrightarrow>
   \<exists>am'. registerAliases_loop (pre @ rest) am = registerAliases_loop rest am'
         \<and> dom am' = dom am \<union> Alias ` set pre"
proof (induction pre arbitrary: am)
  case Nil
  show ?case by (intro exI [of _ am]) simp
next
  case (Cons j js)
  from Cons.prems have a: "Alias j \<noteq> ''''" and b: "am (Alias j) = None"
    by auto
  from Cons.prems have "'''' \<notin> Alias ` set js" "distinct (map Alias js)"
    "Alias ` set js \<inter> dom (am(Alias j \<mapsto> Table j)) = {}"
    by auto
  from Cons.IH [OF this] obtain am' where
    "registerAliases_loop (js @ rest) (am(Alias j \<mapsto> Table j)) = registerAliases_loop rest am'"
    "dom am' = dom (am(Alias j \<mapsto> Table j)) \<union> Alias ` set js"
    by blast
  with a b show ?case by auto
qed

lemma registerAliases_first_offender:
  assumes "joins q = pre @ j # post" "'''' \<notin> Alias ` set pre"
    "distinct (getBaseAlias q # map Alias pre)"
  shows "Alias j = '''' \<Longrightarrow> registerAliases q = Inl JoinAliasRequired"
    and "Alias j \<noteq> '''' \<Longrightarrow> Alias j \<in> set (getBaseAlias q # map Alias pre) \<Longrightarrow>
         registerAliases q = Inl (DuplicateAlias (Alias j))"
proof -
  let ?am = "Map.empty(getBaseAlias q \<mapsto> baseTable q)"
  from assms have "Alias ` set pre \<inter> dom ?am = {}" "distinct (map Alias pre)"
    by auto
  from registerAliases_loop_prefix [OF assms(2) this(2) this(1), of "j # post"]
  obtain am' where am': "registerAliases_loop (pre @ j # post) ?am = registerAliases_loop (j # post) am'"
    "dom am' = dom ?am \<union> Alias ` set pre"
    by blast
  show "Alias j = '''' \<Longrightarrow> registerAliases q = Inl JoinAliasRequired"
    using am'(1) assms(1) by (simp add: registerAliases_def)
  show "Alias j \<noteq> '''' \<Longrightarrow> Alias j \<in> set (getBaseAlias q # map Alias pre) \<Longrightarrow>
         registerAliases q = Inl (DuplicateAlias (Alias j))"
  proof -
    assume ne: "Alias j \<noteq> ''''" and "Alias j \<in> set (getBaseAlias q # map Alias pre)"
    with am'(2) have "Alias j \<in> dom am'" by auto
    then have "am' (Alias j) \<noteq> None" by auto
    with ne am'(1) assms(1) show ?thesis by (simp add: registerAliases_def)
  qed
qed

lemma registerAliases_offender_fails:
  assumes "'''' \<in> Alias ` set (joins q) \<or> \<not> distinct (getBaseAlias q # map Alias (joins q))"
  shows "\<exists>e. registerAliases q = Inl e"
proof (cases "registerAliases q")
  case (Inl e)
  then show ?thesis by simp
next
  case (Inr am')
  from registerAliases_loop_success [OF Inr [unfolded registerAliases_def]] assms
  show ?thesis by auto
qed

text \<open>
  Claim C8 says that \<open>Build\<close> fails with the missing-alias error if any join
  has an empty alias. \<open>Build\<close> returns one error, the first it meets: in the
  query below the first join repeats the base alias \<open>''u''\<close> and the second
  has an empty alias, and the error is the duplicate-alias error of the first.
\<close>

theorem join_alias_counterexample:
  "Alias (joins colliding_joins_query ! 1) = '''' \<and>
   Build colliding_joins_query = ('''', [], Some (DuplicateAlias ''u'')) \<and>
   Build colliding_joins_query \<noteq> ('''', [], Some JoinAliasRequired)"
  by code_simp

text \<open>
  Claim C8, amended: \<open>Build\<close> fails, with empty SQL text and no arguments,
  whenever a join has an empty alias or an alias equal to the base alias (the
  explicit one, or the base table name) or to the alias of an earlier join.
  When there is no pre-accumulated error and the base table is valid, the
  error is that of the first such join in configuration order (the joins
  \<open>pre\<close> before it have non-empty aliases, distinct and different from the
  base alias): the missing-alias error if its alias is empty, else the
  duplicate-alias error naming its alias.
\<close>

theorem join_alias_errors:
  "(('''' \<in> Alias ` set (joins q) \<or> \<not> distinct (getBaseAlias q # map Alias (joins q))) \<longrightarrow>
      (\<exists>e. Build q = ('''', [], Some e))) \<and>
   (errors q = [] \<and> validateBase q (allowedSchema q) = None \<and> joins q = pre @ j # post \<and>
    '''' \<notin> Alias ` set pre \<and> distinct (getBaseAlias q # map Alias pre) \<longrightarrow>
      (Alias j = '''' \<longrightarrow> Build q = ('''', [], Some JoinAliasRequired)) \<and>
      (Alias j \<noteq> '''' \<and> Alias j \<in> set (getBaseAlias q # map Alias pre) \<longrightarrow>
         Build q = ('''', [], Some (DuplicateAlias (Alias j)))))"
proof (intro conjI impI)
  assume "'''' \<in> Alias ` set (joins q) \<or> \<not> distinct (getBaseAlias q # map Alias (joins q))"
  from registerAliases_offender_fails [OF this] obtain e where "registerAliases q = Inl e" ..
  then show "\<exists>e. Build q = ('''', [], Some e)"
    by (rule Build_fails_if_registerAliases_fails)
next
  assume h: "errors q = [] \<and> validateBase q (allowedSchema q) = None \<and> joins q = pre @ j # post \<and>
    '''' \<notin> Alias ` set pre \<and> distinct (getBaseAlias q # map Alias pre)"
  assume "Alias j = ''''"
  with h registerAliases_first_offender(1) [of q pre j post]
  have "registerAliases q = Inl JoinAliasRequired" by blast
  with h show "Build q = ('''', [], Some JoinAliasRequired)"
    by (simp add: Build_registerAliases_fails)
next
  assume h: "errors q = [] \<and> validateBase q (allowedSchema q) = None \<and> joins q = pre @ j # post \<and>
    '''' \<notin> Alias ` set pre \<and> distinct (getBaseAlias q # map Alias pre)"
  assume "Alias j \<noteq> '''' \<and> Alias j \<in> set (getBaseAlias q # map Alias pre)"
  with h registerAliases_first_offender(2) [of q pre j post]
  have "registerAliases q = Inl (DuplicateAlias (Alias j))" by blast
  with h show "Build q = ('''', [], Some (DuplicateAlias (Alias j)))"
    by (simp add: Build_registerAliases_fails)
qed

theorem join_alias_errors_witness:
  "errors colliding_joins_query = [] \<and>
   validateBase colliding_joins_query (allowedSchema colliding_joins_query) = None \<and>
   getBaseAlias colliding_joins_query = ''u'' \<and>
   map Alias (joins colliding_joins_query) = [''u'', ''''] \<and>
   Build colliding_joins_query = ('''', [], Some (DuplicateAlias ''u'')) \<and>
   Build (colliding_joins_query\<lparr>joins := rev (joins colliding_joins_query)\<rparr>)
     = ('''', [], Some JoinAliasRequired)"
proof -
  let ?q = "colliding_joins_query"
  let ?r = "colliding_joins_query\<lparr>joins := rev (joins colliding_joins_query)\<rparr>"
  have a: "errors ?q = []" "validateBase ?q (allowedSchema ?q) = None" "getBaseAlias ?q = ''u''"
    "map Alias (joins ?q) = [''u'', '''']"
    by code_simp+
  have b: "joins ?q = [] @ (joins ?q ! 0) # tl (joins ?q)" "Alias (joins ?q ! 0) = ''u''"
    by code_simp+
  have c: "errors ?r = []" "validateBase ?r (allowedSchema ?r) = None"
    "joins ?r = [] @ (joins ?r ! 0) # tl (joins ?r)" "Alias (joins ?r ! 0) = ''''"
    by code_simp+
  from join_alias_errors [of ?q "[]" "joins ?q ! 0" "tl (joins ?q)"] a b
  have r1: "Build ?q = ('''', [], Some (DuplicateAlias ''u''))"
    by simp
  from join_alias_errors [of ?r "[]" "joins ?r ! 0" "tl (joins ?r)"] c
  have r2: "Build ?r = ('''', [], Some JoinAliasRequired)"
    by simp
  from a r1 r2 show ?thesis by simp
qed


section \<open>The error of a phase does not depend on the builder or the arguments\<close>

lemma err_of_simps [simp]:
  "err_of (Inl e) = Some e"
  "err_of (Inr x) = None"
  by (simp_all add: err_of_def)

lemma err_of_None: "err_of r = None \<longleftrightarrow> (\<exists>x. r = Inr x)"
  by (cases r) simp_all

lemma err_of_Some: "err_of r = Some e \<longleftrightarrow> r = Inl e"
  by (cases r) simp_all

lemma err_of_eq_cases:
  assumes "err_of r = err_of r'"
  obtains (fail) e where "r = Inl e" "r' = Inl e"
        | (ok) x x' where "r = Inr x" "r' = Inr x'"
  using assms by (cases r; cases r') simp_all

lemma buildJoins_loop_err:
  "err_of (buildJoins_loop q js sb am sch) = err_of (buildJoins_loop q js sb' am sch)"
  by (induction js arbitrary: sb sb') (simp_all split: option.split)

lemma buildOrderBy_err:
  "err_of (buildOrderBy q sb am sch) = err_of (buildOrderBy q sb' am sch)"
  by (simp add: buildOrderBy_def split: sum.split)

lemma collectFilters_loop_err:
  "err_of (collectFilters_loop q fs parts args am sch)
     = err_of (collectFilters_loop q fs parts' args' am sch)"
  by (induction fs arbitrary: parts args parts' args') (simp_all add: Let_def split: option.split)

lemma buildFilterGroup_err:
  "\<forall>args'. err_of (buildFilterGroup q g args am depth sch)
            = err_of (buildFilterGroup q g args' am depth sch)"
  "\<forall>parts' args'. err_of (buildFilterGroup_loop q gs parts args am depth sch)
            = err_of (buildFilterGroup_loop q gs parts' args' am depth sch)"
proof (induction q g args am depth sch and q gs parts args am depth sch
       rule: buildFilterGroup_buildFilterGroup_loop.induct)
  case (1 q operator filters groups args aliasMap depth sch)
  show ?case
  proof
    fix args'
    have c: "err_of (collectFilters q filters args aliasMap sch)
               = err_of (collectFilters q filters args' aliasMap sch)"
      unfolding collectFilters_def by (rule collectFilters_loop_err)
    show "err_of (buildFilterGroup q (FilterGroup operator filters groups) args aliasMap depth sch)
            = err_of (buildFilterGroup q (FilterGroup operator filters groups) args' aliasMap depth sch)"
    proof (cases "depth > maxFilterDepth \<or> (ToUpper operator \<noteq> ''AND'' \<and> ToUpper operator \<noteq> ''OR'')")
      case True
      then show ?thesis by auto
    next
      case False
      from c show ?thesis
      proof (cases rule: err_of_eq_cases)
        case (fail e)
        with False show ?thesis by (auto simp add: Let_def)
      next
        case (ok x x')
        obtain parts args1 where x: "x = (parts, args1)" by (cases x)
        obtain parts' args1' where x': "x' = (parts', args1')" by (cases x')
        from False "1.IH" [OF _ refl _ ok(1) x [symmetric]]
        have "err_of (buildFilterGroup_loop q groups parts args1 aliasMap (depth + 1) sch)
            = err_of (buildFilterGroup_loop q groups parts' args1' aliasMap (depth + 1) sch)"
          by simp
        then show ?thesis
        proof (cases rule: err_of_eq_cases)
          case (fail e)
          with False ok x x' show ?thesis by (auto simp add: Let_def)
        next
          case (ok y y')
          with False \<open>collectFilters q filters args aliasMap sch = Inr x\<close>
            \<open>collectFilters q filters args' aliasMap sch = Inr x'\<close> x x'
          show ?thesis by (auto simp add: Let_def split: prod.split)
        qed
      qed
    qed
  qed
next
  case (2 q parts args aliasMap depth sch)
  then show ?case by simp
next
  case (3 q subGroup rest parts args aliasMap depth sch)
  show ?case
  proof (intro allI)
    fix parts' args'
    from "3.IH"(1) have "err_of (buildFilterGroup q subGroup args aliasMap depth sch)
       = err_of (buildFilterGroup q subGroup args' aliasMap depth sch)"
      by simp
    then show "err_of (buildFilterGroup_loop q (subGroup # rest) parts args aliasMap depth sch)
       = err_of (buildFilterGroup_loop q (subGroup # rest) parts' args' aliasMap depth sch)"
    proof (cases rule: err_of_eq_cases)
      case (fail e)
      then show ?thesis by simp
    next
      case (ok x x')
      obtain sub args1 where x: "x = (sub, args1)" by (cases x)
      obtain sub' args1' where x': "x' = (sub', args1')" by (cases x')
      from "3.IH"(2) [OF ok(1) x [symmetric]] ok x x'
      show ?thesis by simp
    qed
  qed
qed

lemma buildKeysetPagination_ok: "\<exists>clause args'. buildKeysetPagination q args hasWhere = Inr (clause, args')"
  by (simp add: buildKeysetPagination_def Let_def split: list.split option.split)

lemma buildFilters_err:
  "err_of (buildFilters q sb args am sch) = err_of (buildFilters q sb' args' am sch)"
proof -
  have k: "err_of (case buildKeysetPagination q a h of Inl err \<Rightarrow> Inl err
                   | Inr (keysetClause, args2) \<Rightarrow>
                       if keysetClause \<noteq> '''' then Inr (f keysetClause args2) else Inr (g args2)) = None"
    for a h and f :: "string \<Rightarrow> 'a val list \<Rightarrow> string \<times> 'a val list" and g
    using buildKeysetPagination_ok [of q a h] by auto
  show ?thesis
  proof (cases "where' q")
    case None
    then show ?thesis by (simp add: buildFilters_def k)
  next
    case (Some g)
    from buildFilterGroup_err(1) [of q g args am 0 sch]
    have "err_of (buildFilterGroup q g args am 0 sch) = err_of (buildFilterGroup q g args' am 0 sch)"
      by simp
    then show ?thesis
    proof (cases rule: err_of_eq_cases)
      case (fail e)
      with Some show ?thesis by (simp add: buildFilters_def)
    next
      case (ok x x')
      with Some show ?thesis by (simp add: buildFilters_def k split: prod.split)
    qed
  qed
qed

lemma buildJoins_err:
  "err_of (buildJoins q sb am sch) = err_of (buildJoins q sb' am sch)"
  unfolding buildJoins_def by (rule buildJoins_loop_err)

lemma Build_error:
  "snd (snd (Build q)) = first_error (phase_errors q)"
proof (cases "errors q")
  case (Cons e es)
  then show ?thesis by (simp add: Build_def phase_errors_def)
next
  case Nil
  note n = Nil
  show ?thesis
  proof (cases "validateBase q (allowedSchema q)")
    case (Some e)
    with n show ?thesis by (simp add: Build_def phase_errors_def)
  next
    case None
    note b = None
    show ?thesis
    proof (cases "registerAliases q")
      case (Inl e)
      with n b show ?thesis by (simp add: Build_def phase_errors_def)
    next
      case (Inr am)
      note r = Inr
      let ?sch = "allowedSchema q"
      let ?P = "if isCount q then Inr ''SELECT COUNT(*)''
                else buildProjections q [] am ?sch (getBaseAlias q)"
      show ?thesis
      proof (cases ?P)
        case (Inl e)
        with n b r show ?thesis
          by (simp add: Build_def phase_errors_def split: if_splits)
      next
        case (Inr sb1)
        note p = Inr
        then have pe: "(if isCount q then None
            else err_of (buildProjections q [] am ?sch (getBaseAlias q))) = None"
          by (simp split: if_splits)
        let ?sb2 = "sb1 @ '' FROM '' @ baseTable q @ '' '' @ getBaseAlias q"
        show ?thesis
        proof (cases "buildJoins q ?sb2 am ?sch")
          case (Inl e)
          with buildJoins_err [of q ?sb2 am ?sch "[]"]
          have "err_of (buildJoins q [] am ?sch) = Some e" by simp
          with n b r p pe Inl show ?thesis
            by (simp add: Build_def phase_errors_def Let_def)
        next
          case (Inr sb3)
          note j = Inr
          with buildJoins_err [of q ?sb2 am ?sch "[]"]
          have je: "err_of (buildJoins q [] am ?sch) = None" by simp
          show ?thesis
          proof (cases "buildFilters q sb3 [] am ?sch")
            case (Inl e)
            with buildFilters_err [of q sb3 "[]" am ?sch "[]" "[]"]
            have "err_of (buildFilters q [] [] am ?sch) = Some e" by simp
            with n b r p pe j je Inl show ?thesis
              by (simp add: Build_def phase_errors_def Let_def)
          next
            case (Inr x)
            obtain sb4 args where x: "x = (sb4, args)" by (cases x)
            from Inr buildFilters_err [of q sb3 "[]" am ?sch "[]" "[]"]
            have fe: "err_of (buildFilters q [] [] am ?sch) = None" by simp
            show ?thesis
            proof (cases "isCount q")
              case True
              with n b r p pe j je Inr x fe show ?thesis
                by (simp add: Build_def phase_errors_def Let_def)
            next
              case False
              show ?thesis
              proof (cases "buildOrderBy q sb4 am ?sch")
                case (Inl e)
                with buildOrderBy_err [of q sb4 am ?sch "[]"]
                have "err_of (buildOrderBy q [] am ?sch) = Some e" by simp
                with n b r p pe j je \<open>buildFilters q sb3 [] am ?sch = Inr x\<close> x fe False Inl
                show ?thesis
                  by (simp add: Build_def phase_errors_def Let_def)
              next
                case (Inr sb5)
                with buildOrderBy_err [of q sb4 am ?sch "[]"]
                have oe: "err_of (buildOrderBy q [] am ?sch) = None" by simp
                with n b r p pe j je \<open>buildFilters q sb3 [] am ?sch = Inr x\<close> x fe False Inr
                show ?thesis
                  by (simp add: Build_def phase_errors_def Let_def split: prod.split)
              qed
            qed
          qed
        qed
      qed
    qed
  qed
qed

text \<open>
  Claim C9: whenever \<open>Build\<close> returns an error, the SQL text is empty and the
  argument list is empty; the error is the first one in the order of the
  phases (\<open>phase_errors\<close> lists the error of each phase in that order, the
  pre-accumulated error of the builder first); and a pre-accumulated error is
  returned whatever the rest of the query is.
\<close>

theorem Build_error_policy:
  "(\<forall>sql args e. Build q = (sql, args, Some e) \<longrightarrow> sql = '''' \<and> args = []) \<and>
   snd (snd (Build q)) = first_error (phase_errors q) \<and>
   (\<forall>e es. errors q = e # es \<longrightarrow> Build q = ('''', [], Some e))"
  using Build_error_shape [of q] Build_error [of q] Build_preaccumulated [of q]
  by blast

theorem Build_error_policy_witness:
  "errors ((New PostgresDialect :: unit Query)\<lparr>errors := [Reserved ''deferred'']\<rparr>)
     = [Reserved ''deferred''] \<and>
   validateBase ((New PostgresDialect :: unit Query)\<lparr>errors := [Reserved ''deferred'']\<rparr>) None
     = Some BaseTableRequired \<and>
   Build ((New PostgresDialect :: unit Query)\<lparr>errors := [Reserved ''deferred'']\<rparr>)
     = ('''', [], Some (Reserved ''deferred'')) \<and>
   phase_errors colliding_joins_query = [None, None, Some (DuplicateAlias ''u'')] \<and>
   snd (snd (Build colliding_joins_query)) = Some (DuplicateAlias ''u'') \<and>
   fst (Build colliding_joins_query) = ''''"
proof -
  let ?q = "(New PostgresDialect :: unit Query)\<lparr>errors := [Reserved ''deferred'']\<rparr>"
  have a: "errors ?q = [Reserved ''deferred'']"
    "validateBase ?q None = Some BaseTableRequired"
    by code_simp+
  have b: "phase_errors colliding_joins_query = [None, None, Some (DuplicateAlias ''u'')]"
    by code_simp
  from Build_error_policy [of ?q] a(1)
  have r1: "Build ?q = ('''', [], Some (Reserved ''deferred''))"
    by blast
  from Build_error_policy [of colliding_joins_query] b
  have r2: "snd (snd (Build colliding_joins_query)) = Some (DuplicateAlias ''u'')"
    by simp
  with Build_error_policy [of colliding_joins_query]
  have r3: "fst (Build colliding_joins_query) = ''''"
    by (cases "Build colliding_joins_query") auto
  from a b r1 r2 r3 show ?thesis by simp
qed


section \<open>Count queries\<close>

text \<open>The builder is only ever appended to.\<close>

lemma buildJoins_loop_append:
  "buildJoins_loop q js (sb @ t) am sch = map_sum id ((@) sb) (buildJoins_loop q js t am sch)"
  by (induction js arbitrary: t) (simp_all split: option.split)

lemma buildJoins_append:
  "buildJoins q sb am sch = map_sum id ((@) sb) (buildJoins q [] am sch)"
  using buildJoins_loop_append [of q "joins q" sb "[]" am sch] by (simp add: buildJoins_def)

lemma buildFilters_append:
  "buildFilters q sb args am sch
     = map_sum id (\<lambda>(s, a). (sb @ s, a)) (buildFilters q [] args am sch)"
proof (cases "where' q")
  case None
  from buildKeysetPagination_ok [of q args False]
  obtain c a2 where "buildKeysetPagination q args False = Inr (c, a2)" by blast
  with None show ?thesis
    by (simp add: buildFilters_def)
next
  case (Some g)
  show ?thesis
  proof (cases "buildFilterGroup q g args am 0 sch")
    case (Inl e)
    with Some show ?thesis by (simp add: buildFilters_def)
  next
    case (Inr x)
    obtain w a1 where x: "x = (w, a1)" by (cases x)
    from buildKeysetPagination_ok [of q a1 "w \<noteq> []"]
    obtain c a2 where "buildKeysetPagination q a1 (w \<noteq> []) = Inr (c, a2)" by blast
    with Some Inr x show ?thesis
      by (cases "w = []") (simp_all add: buildFilters_def)
  qed
qed

text \<open>Only the first sort column is read by the WHERE phase, and only in
  keyset mode.\<close>

lemma buildFilters_receiver_sorts:
  assumes "dialect q' = dialect q" "pagination q' = pagination q" "where' q' = where' q"
    and "Pagination.Type (pagination q) = ''keyset'' \<Longrightarrow> take 1 (sorts q') = take 1 (sorts q)"
  shows "buildFilters q' sb args am sch = buildFilters q sb args am sch"
proof -
  have b: "buildFilterGroup q' = buildFilterGroup q"
    using assms by (intro ext buildFilterGroup_receiver)
  show ?thesis
  proof (cases "Pagination.Type (pagination q) = ''keyset''")
    case False
    then have nk: "(Pagination.Type (pagination q) = ''keyset'') = False" by simp
    show ?thesis
      unfolding buildFilters_def b assms(1-3) nk simp_thms if_False ..
  next
    case True
    with assms(4) have t: "take 1 (sorts q') = take 1 (sorts q)" by simp
    then have e: "(sorts q' \<noteq> []) = (sorts q \<noteq> [])"
      by (cases "sorts q"; cases "sorts q'") simp_all
    from t have kp: "buildKeysetPagination q' = buildKeysetPagination q"
      using assms(1,2)
      by (cases "sorts q"; cases "sorts q'")
         (simp_all add: buildKeysetPagination_def fun_eq_iff Let_def cong: option.case_cong)
    show ?thesis
      unfolding buildFilters_def b assms(1-3) e kp ..
  qed
qed

lemma Build_count:
  "isCount q \<Longrightarrow>
   Build q =
     (case errors q of
        e # es \<Rightarrow> ('''', [], Some e)
      | [] \<Rightarrow>
     (case validateBase q (allowedSchema q) of
        Some err \<Rightarrow> ('''', [], Some err)
      | None \<Rightarrow>
     (case registerAliases q of
        Inl err \<Rightarrow> ('''', [], Some err)
      | Inr aliasMap \<Rightarrow>
     (case buildJoins q (''SELECT COUNT(*)'' @ '' FROM '' @ baseTable q @ '' '' @ getBaseAlias q)
             aliasMap (allowedSchema q) of
        Inl err \<Rightarrow> ('''', [], Some err)
      | Inr sb3 \<Rightarrow>
     (case buildFilters q sb3 [] aliasMap (allowedSchema q) of
        Inl err \<Rightarrow> ('''', [], Some err)
      | Inr (sb4, args) \<Rightarrow> (sb4, args, None))))))"
  by (simp add: Build_def Let_def split: list.split option.split sum.split prod.split)

lemma Build_count_receiver:
  assumes "isCount q" "isCount q'" "errors q' = errors q" "allowedSchema q' = allowedSchema q"
    "baseTable q' = baseTable q" "baseAlias q' = baseAlias q" "joins q' = joins q"
    "dialect q' = dialect q" "pagination q' = pagination q" "where' q' = where' q"
    and "Pagination.Type (pagination q) = ''keyset'' \<Longrightarrow> take 1 (sorts q') = take 1 (sorts q)"
  shows "Build q' = Build q"
proof -
  have 1: "validateBase q' = validateBase q"
    using assms by (intro ext validateBase_receiver)
  have 2: "registerAliases q' = registerAliases q"
    using assms by (intro registerAliases_receiver)
  have 3: "buildJoins q' = buildJoins q"
    using assms by (intro ext buildJoins_receiver)
  have 4: "buildFilters q' = buildFilters q"
    using assms by (intro ext buildFilters_receiver_sorts)
  have 5: "getBaseAlias q' = getBaseAlias q"
    using assms by (intro getBaseAlias_receiver)
  show ?thesis
    unfolding Build_count [OF assms(1)] Build_count [OF assms(2)] 1 2 3 4 5 assms(3-5) ..
qed

text \<open>
  Claim C5: a count query returns right after the WHERE phase. Its text is
  \<open>SELECT COUNT(*)\<close>, the FROM clause, what the JOIN phase renders and what
  the WHERE phase renders, and nothing else; its arguments are those of the
  WHERE phase. The limit and the offset have no effect on the result, the
  sort columns after the first have none, and outside keyset mode (where the
  first sort column gives the keyset predicate of the WHERE phase) no sort
  column has any.
\<close>

theorem count_short_circuit:
  assumes "isCount q"
  shows "(Build q = (sql, args, None) \<longrightarrow>
           (\<exists>aliasMap joinsText whereText.
              registerAliases q = Inr aliasMap \<and>
              buildJoins q [] aliasMap (allowedSchema q) = Inr joinsText \<and>
              buildFilters q [] [] aliasMap (allowedSchema q) = Inr (whereText, args) \<and>
              sql = ''SELECT COUNT(*)'' @ '' FROM '' @ baseTable q @ '' '' @ getBaseAlias q
                      @ joinsText @ whereText)) \<and>
         Build (q\<lparr>limit := l, offset := off\<rparr>) = Build q \<and>
         Build (q\<lparr>sorts := take 1 (sorts q), limit := l, offset := off\<rparr>) = Build q \<and>
         (Pagination.Type (pagination q) \<noteq> ''keyset'' \<longrightarrow>
            Build (q\<lparr>sorts := ss, limit := l, offset := off\<rparr>) = Build q)"
proof (intro conjI impI)
  assume b: "Build q = (sql, args, None)"
  let ?sch = "allowedSchema q"
  let ?sb2 = "''SELECT COUNT(*)'' @ '' FROM '' @ baseTable q @ '' '' @ getBaseAlias q"
  from b assms obtain am where am: "registerAliases q = Inr am"
    by (auto simp add: Build_count split: list.splits option.splits sum.splits)
  from b assms am obtain sb3 where j: "buildJoins q ?sb2 am ?sch = Inr sb3"
    by (auto simp add: Build_count split: list.splits option.splits sum.splits)
  from b assms am j have f: "buildFilters q sb3 [] am ?sch = Inr (sql, args)"
    by (auto simp add: Build_count split: list.splits option.splits sum.splits)
  from j obtain joinsText where jt: "buildJoins q [] am ?sch = Inr joinsText"
    and sb3: "sb3 = ?sb2 @ joinsText"
    by (subst (asm) buildJoins_append) (cases "buildJoins q [] am ?sch", auto)
  from f obtain whereText where wt: "buildFilters q [] [] am ?sch = Inr (whereText, args)"
    and sql: "sql = sb3 @ whereText"
    by (subst (asm) buildFilters_append) (cases "buildFilters q [] [] am ?sch", auto)
  from am jt wt sql sb3
  show "\<exists>aliasMap joinsText whereText.
              registerAliases q = Inr aliasMap \<and>
              buildJoins q [] aliasMap ?sch = Inr joinsText \<and>
              buildFilters q [] [] aliasMap ?sch = Inr (whereText, args) \<and>
              sql = ''SELECT COUNT(*)'' @ '' FROM '' @ baseTable q @ '' '' @ getBaseAlias q
                      @ joinsText @ whereText"
    by auto
next
  show "Build (q\<lparr>limit := l, offset := off\<rparr>) = Build q"
    using assms by (intro Build_count_receiver) simp_all
next
  show "Build (q\<lparr>sorts := take 1 (sorts q), limit := l, offset := off\<rparr>) = Build q"
    using assms by (intro Build_count_receiver) simp_all
next
  assume "Pagination.Type (pagination q) \<noteq> ''keyset''"
  then show "Build (q\<lparr>sorts := ss, limit := l, offset := off\<rparr>) = Build q"
    using assms by (intro Build_count_receiver) simp_all
qed

theorem count_short_circuit_witness:
  "isCount count_query \<and> limit count_query = 10 \<and> length (sorts count_query) = 1 \<and>
   Build count_query = (''SELECT COUNT(*) FROM users u WHERE u.age = $1'', [IntV 30], None) \<and>
   Build (count_query\<lparr>where' := None\<rparr>) = (''SELECT COUNT(*) FROM users u'', [], None)"
proof -
  let ?q = "count_query"
  let ?r = "count_query\<lparr>where' := None\<rparr>"
  have c: "isCount ?q" "isCount ?r" "limit ?q = 10" "length (sorts ?q) = 1"
    "Pagination.Type (pagination ?q) \<noteq> ''keyset''"
    "Pagination.Type (pagination ?r) \<noteq> ''keyset''"
    by code_simp+
  have e1: "Build (?q\<lparr>sorts := [], limit := 0, offset := 0\<rparr>)
              = (''SELECT COUNT(*) FROM users u WHERE u.age = $1'', [IntV 30], None)"
    by code_simp
  have e2: "Build (?r\<lparr>sorts := [], limit := 0, offset := 0\<rparr>)
              = (''SELECT COUNT(*) FROM users u'', [], None)"
    by code_simp
  from count_short_circuit [OF c(1), of _ _ 0 0 "[]"] c(5) e1
  have r1: "Build ?q = (''SELECT COUNT(*) FROM users u WHERE u.age = $1'', [IntV 30], None)"
    by simp
  from count_short_circuit [OF c(2), of _ _ 0 0 "[]"] c(6) e2
  have r2: "Build ?r = (''SELECT COUNT(*) FROM users u'', [], None)"
    by simp
  from c r1 r2 show ?thesis by simp
qed


section \<open>Build as the concatenation of its phases\<close>

lemma buildOrderBy_append:
  "buildOrderBy q sb am sch = map_sum id ((@) sb) (buildOrderBy q [] am sch)"
  by (simp add: buildOrderBy_def split: sum.split)

lemma buildLimitOffset_append:
  "buildLimitOffset q sb args
     = (sb @ fst (buildLimitOffset q [] args), snd (buildLimitOffset q [] args))"
  by (simp add: buildLimitOffset_def Let_def)

text \<open>A query that is not a count query and passes the first phases: each
  later phase can be run on an empty builder, and the text is the
  concatenation of what the phases render.\<close>

lemma Build_phases:
  assumes "\<not> isCount q" "errors q = []" "validateBase q (allowedSchema q) = None"
    "registerAliases q = Inr am"
    "buildProjections q [] am (allowedSchema q) (getBaseAlias q) = Inr sel"
  shows "Build q =
     (case buildJoins q [] am (allowedSchema q) of
        Inl e \<Rightarrow> ('''', [], Some e)
      | Inr joinsText \<Rightarrow>
     (case buildFilters q [] [] am (allowedSchema q) of
        Inl e \<Rightarrow> ('''', [], Some e)
      | Inr (whereText, args) \<Rightarrow>
     (case buildOrderBy q [] am (allowedSchema q) of
        Inl e \<Rightarrow> ('''', [], Some e)
      | Inr orderText \<Rightarrow>
          (sel @ '' FROM '' @ baseTable q @ '' '' @ getBaseAlias q @ joinsText @ whereText
             @ orderText @ fst (buildLimitOffset q [] args),
           snd (buildLimitOffset q [] args), None))))"
proof -
  let ?sch = "allowedSchema q"
  let ?sb2 = "sel @ '' FROM '' @ baseTable q @ '' '' @ getBaseAlias q"
  show ?thesis
  proof (cases "buildJoins q [] am ?sch")
    case (Inl e)
    with buildJoins_append [of q ?sb2 am ?sch] have "buildJoins q ?sb2 am ?sch = Inl e" by simp
    with assms Inl show ?thesis by (simp add: Build_def)
  next
    case (Inr j)
    with buildJoins_append [of q ?sb2 am ?sch]
    have j: "buildJoins q ?sb2 am ?sch = Inr (?sb2 @ j)" by simp
    show ?thesis
    proof (cases "buildFilters q [] [] am ?sch")
      case (Inl e)
      with buildFilters_append [of q "?sb2 @ j" "[]" am ?sch]
      have "buildFilters q (?sb2 @ j) [] am ?sch = Inl e" by simp
      with assms Inr j Inl show ?thesis by (simp add: Build_def)
    next
      case (Inr x)
      note f0 = Inr
      obtain w args where x: "x = (w, args)" by (cases x)
      with Inr buildFilters_append [of q "?sb2 @ j" "[]" am ?sch]
      have f: "buildFilters q (?sb2 @ j) [] am ?sch = Inr (?sb2 @ j @ w, args)" by simp
      show ?thesis
      proof (cases "buildOrderBy q [] am ?sch")
        case (Inl e)
        with buildOrderBy_append [of q "?sb2 @ j @ w" am ?sch]
        have "buildOrderBy q (?sb2 @ j @ w) am ?sch = Inl e" by simp
        with assms \<open>buildJoins q [] am ?sch = Inr j\<close> j f0 x f Inl show ?thesis
          by (simp add: Build_def)
      next
        case (Inr ob)
        with buildOrderBy_append [of q "?sb2 @ j @ w" am ?sch]
        have ob: "buildOrderBy q (?sb2 @ j @ w) am ?sch = Inr (?sb2 @ j @ w @ ob)" by simp
        from buildLimitOffset_append [of q "?sb2 @ j @ w @ ob" args]
        have lo: "buildLimitOffset q (?sb2 @ j @ w @ ob) args
                    = (?sb2 @ j @ w @ ob @ fst (buildLimitOffset q [] args),
                       snd (buildLimitOffset q [] args))"
          by simp
        from assms \<open>buildJoins q [] am ?sch = Inr j\<close> j f0 x f Inr ob lo show ?thesis
          by (simp add: Build_def)
      qed
    qed
  qed
qed

text \<open>The same for every query, count or not, whose phases all succeed: the
  text is what the phases render, one after the other.\<close>

lemma Build_text:
  assumes e: "errors q = []" and b: "validateBase q (allowedSchema q) = None"
    and am: "registerAliases q = Inr am"
    and s: "(if isCount q then Inr ''SELECT COUNT(*)''
             else buildProjections q [] am (allowedSchema q) (getBaseAlias q)) = Inr sel"
    and j: "buildJoins q [] am (allowedSchema q) = Inr joinsText"
    and f: "buildFilters q [] [] am (allowedSchema q) = Inr (whereText, wargs)"
    and ob: "isCount q \<or> buildOrderBy q [] am (allowedSchema q) = Inr orderText"
  shows "Build q =
     (if isCount q
      then (sel @ '' FROM '' @ baseTable q @ '' '' @ getBaseAlias q @ joinsText @ whereText,
            wargs, None)
      else (sel @ '' FROM '' @ baseTable q @ '' '' @ getBaseAlias q @ joinsText @ whereText
              @ orderText @ fst (buildLimitOffset q [] wargs),
            snd (buildLimitOffset q [] wargs), None))"
proof (cases "isCount q")
  case True
  let ?sch = "allowedSchema q"
  let ?sb2 = "''SELECT COUNT(*)'' @ '' FROM '' @ baseTable q @ '' '' @ getBaseAlias q"
  from True s have sel: "sel = ''SELECT COUNT(*)''" by simp
  from j buildJoins_append [of q ?sb2 am ?sch]
  have j': "buildJoins q ?sb2 am ?sch = Inr (?sb2 @ joinsText)" by simp
  from f buildFilters_append [of q "?sb2 @ joinsText" "[]" am ?sch]
  have f': "buildFilters q (?sb2 @ joinsText) [] am ?sch = Inr (?sb2 @ joinsText @ whereText, wargs)"
    by simp
  from True e b am j' f' sel show ?thesis
    unfolding Build_count [OF True] by simp
next
  case False
  with s have p: "buildProjections q [] am (allowedSchema q) (getBaseAlias q) = Inr sel" by simp
  from False ob have o: "buildOrderBy q [] am (allowedSchema q) = Inr orderText" by simp
  from False j f o show ?thesis
    unfolding Build_phases [OF False e b am p] by simp
qed


section \<open>The limit and offset phase\<close>

text \<open>The phases before the limit and offset phase do not read the limit.\<close>

lemma Build_limit:
  "Build q =
     (case Build (q\<lparr>limit := 0\<rparr>) of
        (sql0, args0, Some e) \<Rightarrow> ('''', [], Some e)
      | (sql0, args0, None) \<Rightarrow>
          if isCount q then (sql0, args0, None)
          else (case buildLimitOffset q sql0 args0 of (sql, args) \<Rightarrow> (sql, args, None)))"
proof -
  let ?q = "q\<lparr>limit := 0\<rparr>"
  have 1: "validateBase ?q = validateBase q"
    by (intro ext validateBase_receiver) simp
  have 2: "registerAliases ?q = registerAliases q"
    by (intro registerAliases_receiver) simp_all
  have 3: "buildProjections ?q = buildProjections q"
    by (intro ext buildProjections_receiver) simp
  have 4: "buildJoins ?q = buildJoins q"
    by (intro ext buildJoins_receiver) simp
  have 5: "buildFilters ?q = buildFilters q"
    by (intro ext buildFilters_receiver) simp_all
  have 6: "buildOrderBy ?q = buildOrderBy q"
    by (intro ext buildOrderBy_receiver) simp
  have 7: "getBaseAlias ?q = getBaseAlias q"
    by (intro getBaseAlias_receiver) simp_all
  have 8: "buildLimitOffset ?q sb args = (sb, args)" for sb args
    by (simp add: buildLimitOffset_def)
  show ?thesis
    unfolding Build_def 1 2 3 4 5 6 7 8
    by (simp add: Let_def split: list.split option.split sum.split prod.split)
qed

text \<open>No phase reads the offset, except the limit and offset phase under a
  positive limit.\<close>

lemma Build_offset_without_limit:
  assumes "limit q \<le> 0"
  shows "Build (q\<lparr>offset := off\<rparr>) = Build q"
proof -
  let ?q = "q\<lparr>offset := off\<rparr>"
  have 1: "validateBase ?q = validateBase q"
    by (intro ext validateBase_receiver) simp
  have 2: "registerAliases ?q = registerAliases q"
    by (intro registerAliases_receiver) simp_all
  have 3: "buildProjections ?q = buildProjections q"
    by (intro ext buildProjections_receiver) simp
  have 4: "buildJoins ?q = buildJoins q"
    by (intro ext buildJoins_receiver) simp
  have 5: "buildFilters ?q = buildFilters q"
    by (intro ext buildFilters_receiver) simp_all
  have 6: "buildOrderBy ?q = buildOrderBy q"
    by (intro ext buildOrderBy_receiver) simp
  have 7: "getBaseAlias ?q = getBaseAlias q"
    by (intro getBaseAlias_receiver) simp_all
  have 8: "buildLimitOffset ?q sb args = (sb, args)" "buildLimitOffset q sb args = (sb, args)"
    for sb args
    using assms by (simp_all add: buildLimitOffset_def)
  have 9: "errors ?q = errors q" "allowedSchema ?q = allowedSchema q" "isCount ?q = isCount q"
    "baseTable ?q = baseTable q"
    by simp_all
  show ?thesis
    unfolding Build_def 1 2 3 4 5 6 7 8 9 ..
qed

text \<open>The limit and the offset play no role in whether \<open>Build\<close> fails, nor in
  the error.\<close>

lemma Build_limit_error: "snd (snd (Build q)) = snd (snd (Build (q\<lparr>limit := 0\<rparr>)))"
proof -
  obtain sql0 args0 e0 where b: "Build (q\<lparr>limit := 0\<rparr>) = (sql0, args0, e0)"
    by (cases "Build (q\<lparr>limit := 0\<rparr>)")
  show ?thesis
  proof (cases e0)
    case (Some e)
    with b Build_limit [of q] show ?thesis by simp
  next
    case None
    obtain sql args where "buildLimitOffset q sql0 args0 = (sql, args)"
      by (cases "buildLimitOffset q sql0 args0")
    with None b Build_limit [of q] show ?thesis by simp
  qed
qed

lemma Build_limit_offset_error:
  "snd (snd (Build (q\<lparr>limit := l, offset := off\<rparr>))) = snd (snd (Build q))"
proof -
  let ?q' = "q\<lparr>limit := l, offset := off\<rparr>"
  let ?q0 = "q\<lparr>limit := 0\<rparr>"
  have 1: "?q'\<lparr>limit := 0\<rparr> = ?q0\<lparr>offset := off\<rparr>"
    by simp
  have 2: "Build (?q0\<lparr>offset := off\<rparr>) = Build ?q0"
    by (rule Build_offset_without_limit) simp
  have "snd (snd (Build ?q')) = snd (snd (Build (?q'\<lparr>limit := 0\<rparr>)))"
    by (rule Build_limit_error)
  also have "\<dots> = snd (snd (Build ?q0))"
    unfolding 1 2 ..
  also have "\<dots> = snd (snd (Build q))"
    by (rule Build_limit_error [symmetric])
  finally show ?thesis .
qed

text \<open>
  Claim C2: the limit and offset phase of \<open>Build\<close>. Take a query that is not a
  count query and whose earlier phases succeed, and let \<open>sql0\<close> be the text
  they render (the projections, FROM, the joins, the WHERE phase and ORDER BY,
  each run on its own) and \<open>args0\<close> the arguments of the WHERE phase; none of
  these reads the limit or the offset. With a limit \<open>\<le> 0\<close>, \<open>Build\<close> returns
  exactly \<open>sql0\<close> and \<open>args0\<close>: nothing is rendered and no argument is
  appended, whatever the offset. With a positive limit, keyset mode or a
  dialect whose first placeholder is \<open>'':1''\<close> appends FETCH NEXT with one
  placeholder and one argument, the limit; every other query appends LIMIT
  with one placeholder and the limit, and OFFSET with a second placeholder and
  the offset exactly when the offset is positive. For every query, an offset
  under a limit \<open>\<le> 0\<close> changes nothing in what \<open>Build\<close> returns, and the limit
  and the offset never change whether \<open>Build\<close> fails, nor its error.
\<close>

theorem limit_offset_phase:
  "(\<not> isCount q \<and> errors q = [] \<and> validateBase q (allowedSchema q) = None \<and>
    registerAliases q = Inr am \<and>
    buildProjections q [] am (allowedSchema q) (getBaseAlias q) = Inr sel \<and>
    buildJoins q [] am (allowedSchema q) = Inr joinsText \<and>
    buildFilters q [] [] am (allowedSchema q) = Inr (whereText, args0) \<and>
    buildOrderBy q [] am (allowedSchema q) = Inr orderText \<and>
    sql0 = sel @ '' FROM '' @ baseTable q @ '' '' @ getBaseAlias q @ joinsText @ whereText
             @ orderText \<longrightarrow>
    Build q =
      (if limit q \<le> 0 then (sql0, args0, None)
       else if Pagination.Type (pagination q) = ''keyset'' \<or> Placeholder (dialect q) 1 = '':1''
       then (sql0 @ '' FETCH NEXT '' @ Placeholder (dialect q) (int (length args0) + 1)
               @ '' ROWS ONLY'',
             args0 @ [IntV (limit q)], None)
       else if offset q > 0
       then (sql0 @ '' LIMIT '' @ Placeholder (dialect q) (int (length args0) + 1)
               @ '' OFFSET '' @ Placeholder (dialect q) (int (length args0) + 2),
             args0 @ [IntV (limit q), IntV (offset q)], None)
       else (sql0 @ '' LIMIT '' @ Placeholder (dialect q) (int (length args0) + 1),
             args0 @ [IntV (limit q)], None))) \<and>
   (limit q \<le> 0 \<longrightarrow> Build (q\<lparr>offset := off\<rparr>) = Build q) \<and>
   snd (snd (Build (q\<lparr>limit := l, offset := off\<rparr>))) = snd (snd (Build q))"
proof (intro conjI impI)
  assume h: "\<not> isCount q \<and> errors q = [] \<and> validateBase q (allowedSchema q) = None \<and>
    registerAliases q = Inr am \<and>
    buildProjections q [] am (allowedSchema q) (getBaseAlias q) = Inr sel \<and>
    buildJoins q [] am (allowedSchema q) = Inr joinsText \<and>
    buildFilters q [] [] am (allowedSchema q) = Inr (whereText, args0) \<and>
    buildOrderBy q [] am (allowedSchema q) = Inr orderText \<and>
    sql0 = sel @ '' FROM '' @ baseTable q @ '' '' @ getBaseAlias q @ joinsText @ whereText
             @ orderText"
  then have "Build q = (sql0 @ fst (buildLimitOffset q [] args0),
                        snd (buildLimitOffset q [] args0), None)"
    using Build_text [of q am sel joinsText whereText args0 orderText] by simp
  then show "Build q =
      (if limit q \<le> 0 then (sql0, args0, None)
       else if Pagination.Type (pagination q) = ''keyset'' \<or> Placeholder (dialect q) 1 = '':1''
       then (sql0 @ '' FETCH NEXT '' @ Placeholder (dialect q) (int (length args0) + 1)
               @ '' ROWS ONLY'',
             args0 @ [IntV (limit q)], None)
       else if offset q > 0
       then (sql0 @ '' LIMIT '' @ Placeholder (dialect q) (int (length args0) + 1)
               @ '' OFFSET '' @ Placeholder (dialect q) (int (length args0) + 2),
             args0 @ [IntV (limit q), IntV (offset q)], None)
       else (sql0 @ '' LIMIT '' @ Placeholder (dialect q) (int (length args0) + 1),
             args0 @ [IntV (limit q)], None))"
    by (simp add: buildLimitOffset_def Let_def add.commute)
next
  assume "limit q \<le> 0"
  then show "Build (q\<lparr>offset := off\<rparr>) = Build q"
    by (rule Build_offset_without_limit)
next
  show "snd (snd (Build (q\<lparr>limit := l, offset := off\<rparr>))) = snd (snd (Build q))"
    by (rule Build_limit_offset_error)
qed

theorem limit_offset_phase_witness:
  "Build offset_query = (''SELECT u.id FROM users u LIMIT $1 OFFSET $2'', [IntV 10, IntV 5], None) \<and>
   Build (offset_query\<lparr>limit := 0\<rparr>) = (''SELECT u.id FROM users u'', [], None) \<and>
   Build (offset_query\<lparr>limit := 0, offset := 7\<rparr>) = (''SELECT u.id FROM users u'', [], None) \<and>
   Build keyset_query
     = (''SELECT u.* FROM users u WHERE u.id > ? ORDER BY u.id ASC FETCH NEXT ? ROWS ONLY'',
        [IntV 42, IntV 10], None)"
proof -
  let ?am = "[''u'' \<mapsto> ''users'']"
  let ?o = "offset_query"
  let ?z = "offset_query\<lparr>limit := 0\<rparr>"
  let ?k = "keyset_query"
  have am: "registerAliases ?o = Inr ?am" "registerAliases ?z = Inr ?am"
    "registerAliases ?k = Inr ?am"
    by (simp_all add: registerAliases_def getBaseAlias_def offset_query_def keyset_query_def
        users_u_def Offset_def Limit_def Select_def KeysetPagination_def OrderBy_def From_def
        New_def)
  have ho: "\<not> isCount ?o \<and> errors ?o = [] \<and> validateBase ?o (allowedSchema ?o) = None \<and>
      registerAliases ?o = Inr ?am \<and>
      buildProjections ?o [] ?am (allowedSchema ?o) (getBaseAlias ?o) = Inr ''SELECT u.id'' \<and>
      buildJoins ?o [] ?am (allowedSchema ?o) = Inr '''' \<and>
      buildFilters ?o [] [] ?am (allowedSchema ?o) = Inr ('''', []) \<and>
      buildOrderBy ?o [] ?am (allowedSchema ?o) = Inr '''' \<and>
      ''SELECT u.id FROM users u'' = ''SELECT u.id'' @ '' FROM '' @ baseTable ?o @ '' '' @ getBaseAlias ?o @ '''' @ '''' @ ''''"
    by (intro conjI am(1)) code_simp+
  have hz: "\<not> isCount ?z \<and> errors ?z = [] \<and> validateBase ?z (allowedSchema ?z) = None \<and>
      registerAliases ?z = Inr ?am \<and>
      buildProjections ?z [] ?am (allowedSchema ?z) (getBaseAlias ?z) = Inr ''SELECT u.id'' \<and>
      buildJoins ?z [] ?am (allowedSchema ?z) = Inr '''' \<and>
      buildFilters ?z [] [] ?am (allowedSchema ?z) = Inr ('''', []) \<and>
      buildOrderBy ?z [] ?am (allowedSchema ?z) = Inr '''' \<and>
      ''SELECT u.id FROM users u'' = ''SELECT u.id'' @ '' FROM '' @ baseTable ?z @ '' '' @ getBaseAlias ?z @ '''' @ '''' @ ''''"
    by (intro conjI am(2)) code_simp+
  have hk: "\<not> isCount ?k \<and> errors ?k = [] \<and> validateBase ?k (allowedSchema ?k) = None \<and>
      registerAliases ?k = Inr ?am \<and>
      buildProjections ?k [] ?am (allowedSchema ?k) (getBaseAlias ?k) = Inr ''SELECT u.*'' \<and>
      buildJoins ?k [] ?am (allowedSchema ?k) = Inr '''' \<and>
      buildFilters ?k [] [] ?am (allowedSchema ?k) = Inr ('' WHERE u.id > ?'', [IntV 42]) \<and>
      buildOrderBy ?k [] ?am (allowedSchema ?k) = Inr '' ORDER BY u.id ASC'' \<and>
      ''SELECT u.* FROM users u WHERE u.id > ? ORDER BY u.id ASC'' = ''SELECT u.*'' @ '' FROM '' @ baseTable ?k @ '' '' @ getBaseAlias ?k @ '''' @ '' WHERE u.id > ?'' @ '' ORDER BY u.id ASC''"
    by (intro conjI am(3)) code_simp+
  have v: "limit ?o = 10" "offset ?o = 5" "Pagination.Type (pagination ?o) = ''offset''"
    "Placeholder (dialect ?o) = (\<lambda>i. ''$'' @ show_int i)"
    "limit ?k = 10" "Pagination.Type (pagination ?k) = ''keyset''"
    "Placeholder (dialect ?k) = (\<lambda>i. ''?'')"
    by (simp_all add: offset_query_def keyset_query_def users_u_def Offset_def Limit_def
        Select_def KeysetPagination_def OrderBy_def From_def New_def PostgresDialect_def
        MySQLDialect_def)
  have s: "show_int 1 = ''1''" "show_int 2 = ''2''"
    by code_simp+
  from limit_offset_phase [THEN conjunct1, THEN mp, OF ho]
  have r1: "Build ?o = (''SELECT u.id FROM users u LIMIT $1 OFFSET $2'', [IntV 10, IntV 5], None)"
    by (simp add: v s)
  from limit_offset_phase [THEN conjunct1, THEN mp, OF hz]
  have r2: "Build ?z = (''SELECT u.id FROM users u'', [], None)"
    by simp
  from limit_offset_phase [where q = ?z and off = 7, THEN conjunct2, THEN conjunct1, THEN mp] r2
  have r3: "Build (offset_query\<lparr>limit := 0, offset := 7\<rparr>) = (''SELECT u.id FROM users u'', [], None)"
    by simp
  from limit_offset_phase [THEN conjunct1, THEN mp, OF hk]
  have r4: "Build ?k
     = (''SELECT u.* FROM users u WHERE u.id > ? ORDER BY u.id ASC FETCH NEXT ? ROWS ONLY'',
        [IntV 42, IntV 10], None)"
    by (simp add: v)
  from r1 r2 r3 r4 show ?thesis
    by (intro conjI)
qed


section \<open>The depth bound of the filter tree\<close>

lemma buildFilterGroup_too_deep:
  "maxFilterDepth < depth + nesting g \<Longrightarrow>
   \<exists>e. buildFilterGroup q g args am depth sch = Inl e"
  "depth \<le> Suc maxFilterDepth \<Longrightarrow> Suc maxFilterDepth < depth + nesting_list gs \<Longrightarrow>
   \<exists>e. buildFilterGroup_loop q gs parts args am depth sch = Inl e"
proof (induction q g args am depth sch and q gs parts args am depth sch
       rule: buildFilterGroup_buildFilterGroup_loop.induct)
  case (1 q operator filters groups args aliasMap depth sch)
  show ?case
  proof (cases "depth > maxFilterDepth \<or> (ToUpper operator \<noteq> ''AND'' \<and> ToUpper operator \<noteq> ''OR'')")
    case True
    then show ?thesis by auto
  next
    case False
    show ?thesis
    proof (cases "collectFilters q filters args aliasMap sch")
      case (Inl e)
      with False show ?thesis by (auto simp add: Let_def)
    next
      case (Inr x)
      obtain parts args1 where x: "x = (parts, args1)" by (cases x)
      from "1.prems" False have "depth + 1 \<le> Suc maxFilterDepth"
        "Suc maxFilterDepth < (depth + 1) + nesting_list groups" by simp_all
      with False "1.IH" [OF _ refl _ Inr x [symmetric]]
      obtain e where "buildFilterGroup_loop q groups parts args1 aliasMap (depth + 1) sch = Inl e"
        by auto
      with False Inr x show ?thesis by (auto simp add: Let_def)
    qed
  qed
next
  case (2 q parts args aliasMap depth sch)
  then show ?case by simp
next
  case (3 q subGroup rest parts args aliasMap depth sch)
  show ?case
  proof (cases "buildFilterGroup q subGroup args aliasMap depth sch")
    case (Inl e)
    then show ?thesis by simp
  next
    case (Inr x)
    obtain sub args1 where x: "x = (sub, args1)" by (cases x)
    from Inr "3.IH"(1) have "\<not> maxFilterDepth < depth + nesting subGroup" by auto
    with "3.prems" have "Suc maxFilterDepth < depth + nesting_list rest" by auto
    from "3.IH"(2) [OF Inr x [symmetric] "3.prems"(1) this] Inr x show ?thesis by simp
  qed
qed

lemma collectFilters_loop_ok:
  "list_all (filter_ok q am sch) fs \<Longrightarrow>
   \<exists>r. collectFilters_loop q fs parts args am sch = Inr r"
  by (induction fs arbitrary: parts args) (simp_all add: filter_ok_def Let_def)

lemma buildFilterGroup_ok:
  "group_ok q am sch g \<Longrightarrow> depth + nesting g \<le> maxFilterDepth \<Longrightarrow>
   \<exists>r. buildFilterGroup q g args am depth sch = Inr r"
  "groups_ok q am sch gs \<Longrightarrow> depth + nesting_list gs \<le> Suc maxFilterDepth \<Longrightarrow>
   \<exists>r. buildFilterGroup_loop q gs parts args am depth sch = Inr r"
proof (induction q g args am depth sch and q gs parts args am depth sch
       rule: buildFilterGroup_buildFilterGroup_loop.induct)
  case (1 q operator filters groups args aliasMap depth sch)
  from "1.prems" have d: "\<not> depth > maxFilterDepth"
    and op: "ToUpper operator = ''AND'' \<or> ToUpper operator = ''OR''"
    and fs: "list_all (filter_ok q aliasMap sch) filters"
    and gs: "groups_ok q aliasMap sch groups"
    and n: "(depth + 1) + nesting_list groups \<le> Suc maxFilterDepth"
    by auto
  from collectFilters_loop_ok [OF fs] obtain x where
    c: "collectFilters q filters args aliasMap sch = Inr x"
    unfolding collectFilters_def by blast
  obtain parts args1 where x: "x = (parts, args1)" by (cases x)
  from d op have "\<not> (ToUpper operator \<noteq> ''AND'' \<and> ToUpper operator \<noteq> ''OR'')" by auto
  from "1.IH" [OF d refl this c x [symmetric] gs n]
  obtain r where "buildFilterGroup_loop q groups parts args1 aliasMap (depth + 1) sch = Inr r"
    by blast
  with d op c x show ?case
    by (cases r) (auto simp add: Let_def)
next
  case (2 q parts args aliasMap depth sch)
  then show ?case by simp
next
  case (3 q subGroup rest parts args aliasMap depth sch)
  from "3.prems" have g: "group_ok q aliasMap sch subGroup" and gs: "groups_ok q aliasMap sch rest"
    and n1: "depth + nesting subGroup \<le> maxFilterDepth"
    and n2: "depth + nesting_list rest \<le> Suc maxFilterDepth"
    by auto
  from "3.IH"(1) [OF g n1] obtain x where
    s: "buildFilterGroup q subGroup args aliasMap depth sch = Inr x" by blast
  obtain sub args1 where x: "x = (sub, args1)" by (cases x)
  from "3.IH"(2) [OF s x [symmetric] gs n2] s x show ?case by simp
qed

lemma buildFilterGroup_only_depth:
  "group_ok q am sch g \<Longrightarrow> buildFilterGroup q g args am depth sch = Inl e \<Longrightarrow>
   e = FilterDepthExceeded"
  "groups_ok q am sch gs \<Longrightarrow> buildFilterGroup_loop q gs parts args am depth sch = Inl e \<Longrightarrow>
   e = FilterDepthExceeded"
proof (induction q g args am depth sch and q gs parts args am depth sch
       rule: buildFilterGroup_buildFilterGroup_loop.induct)
  case (1 q operator filters groups args aliasMap depth sch)
  from "1.prems" have
        op: "ToUpper operator = ''AND'' \<or> ToUpper operator = ''OR''"
    and fs: "list_all (filter_ok q aliasMap sch) filters"
    and gs: "groups_ok q aliasMap sch groups"
    by auto
  show ?case
  proof (cases "depth > maxFilterDepth")
    case True
    with "1.prems"(2) show ?thesis by simp
  next
    case False
    from collectFilters_loop_ok [OF fs] obtain x where
      c: "collectFilters q filters args aliasMap sch = Inr x"
      unfolding collectFilters_def by blast
    obtain parts args1 where x: "x = (parts, args1)" by (cases x)
    from op have nop: "\<not> (ToUpper operator \<noteq> ''AND'' \<and> ToUpper operator \<noteq> ''OR'')" by auto
    from "1.prems"(2) False op c x
    have "buildFilterGroup_loop q groups parts args1 aliasMap (depth + 1) sch = Inl e"
      by (auto simp add: Let_def split: sum.splits prod.splits if_splits)
    from "1.IH" [OF False refl nop c x [symmetric] gs this] show ?thesis .
  qed
next
  case (2 q parts args aliasMap depth sch)
  then show ?case by simp
next
  case (3 q subGroup rest parts args aliasMap depth sch)
  from "3.prems" have g: "group_ok q aliasMap sch subGroup" and gs: "groups_ok q aliasMap sch rest"
    by auto
  show ?case
  proof (cases "buildFilterGroup q subGroup args aliasMap depth sch")
    case (Inl e')
    with "3.prems"(2) have "e' = e" by simp
    with "3.IH"(1) [OF g] Inl show ?thesis by simp
  next
    case (Inr x)
    obtain sub args1 where x: "x = (sub, args1)" by (cases x)
    from "3.prems"(2) Inr x
    have "buildFilterGroup_loop q rest
            (if sub \<noteq> '''' then parts @ [''('' @ sub @ '')''] else parts) args1 aliasMap depth sch = Inl e"
      by simp
    from "3.IH"(2) [OF Inr x [symmetric] gs this] show ?thesis .
  qed
qed

lemma first_error_None: "first_error es = None \<longleftrightarrow> (\<forall>x\<in>set es. x = None)"
  by (induction es rule: first_error.induct) simp_all

lemma buildFilters_err_where:
  "err_of (buildFilters q sb args am sch) =
     (case where' q of None \<Rightarrow> None | Some g \<Rightarrow> err_of (buildFilterGroup q g args am 0 sch))"
proof (cases "where' q")
  case None
  from buildKeysetPagination_ok [of q args False]
  obtain c a2 where "buildKeysetPagination q args False = Inr (c, a2)" by blast
  with None show ?thesis by (simp add: buildFilters_def)
next
  case (Some g)
  show ?thesis
  proof (cases "buildFilterGroup q g args am 0 sch")
    case (Inl e)
    with Some show ?thesis by (simp add: buildFilters_def)
  next
    case (Inr x)
    obtain w a1 where x: "x = (w, a1)" by (cases x)
    from buildKeysetPagination_ok [of q a1 "w \<noteq> []"]
    obtain c a2 where "buildKeysetPagination q a1 (w \<noteq> []) = Inr (c, a2)" by blast
    with Some Inr x show ?thesis
      by (cases "w = []") (simp_all add: buildFilters_def)
  qed
qed

text \<open>The errors of the phases of a query and of the same query without its
  filter tree differ in the WHERE phase only.\<close>

lemma phase_errors_without_where:
  assumes "registerAliases q = Inr am"
  shows "phase_errors q =
     (phase_errors (q\<lparr>where' := None\<rparr>))
       [4 := err_of (buildFilters q [] [] am (allowedSchema q))]"
proof -
  let ?q = "q\<lparr>where' := None\<rparr>"
  have 1: "validateBase ?q = validateBase q"
    by (intro ext validateBase_receiver) simp
  have 2: "registerAliases ?q = registerAliases q"
    by (intro registerAliases_receiver) simp_all
  have 3: "buildProjections ?q = buildProjections q"
    by (intro ext buildProjections_receiver) simp
  have 4: "buildJoins ?q = buildJoins q"
    by (intro ext buildJoins_receiver) simp
  have 6: "buildOrderBy ?q = buildOrderBy q"
    by (intro ext buildOrderBy_receiver) simp
  have 7: "getBaseAlias ?q = getBaseAlias q"
    by (intro getBaseAlias_receiver) simp_all
  show ?thesis
    unfolding phase_errors_def 1 2 3 4 6 7 using assms by simp
qed

lemma Build_where_error:
  assumes w: "where' q = Some g" and am: "registerAliases q = Inr am"
    and ok: "snd (snd (Build (q\<lparr>where' := None\<rparr>))) = None"
  shows "snd (snd (Build q)) = err_of (buildFilterGroup q g [] am 0 (allowedSchema q))"
proof -
  let ?q = "q\<lparr>where' := None\<rparr>"
  let ?e = "err_of (buildFilters q [] [] am (allowedSchema q))"
  from ok have n: "\<forall>x\<in>set (phase_errors ?q). x = None"
    by (simp add: Build_error first_error_None)
  have am': "registerAliases ?q = Inr am"
    using am registerAliases_receiver [of ?q q] by simp
  have len: "length (phase_errors ?q) = 6"
    using am' by (simp add: phase_errors_def)
  from len n have "phase_errors ?q = replicate 6 None"
    by (intro replicate_eqI) simp_all
  then have "phase_errors ?q = [None, None, None, None, None, None]"
    by (simp add: eval_nat_numeral)
  with phase_errors_without_where [OF am]
  have "phase_errors q = [None, None, None, None, ?e, None]" by simp
  then have "snd (snd (Build q)) = ?e" by (cases ?e) (simp_all add: Build_error)
  with w show ?thesis by (simp add: buildFilters_err_where)
qed

lemma Build_fails_if_where_fails:
  assumes w: "where' q = Some g" and f: "\<And>am. \<exists>e. buildFilterGroup q g [] am 0 (allowedSchema q) = Inl e"
  shows "\<exists>e. Build q = ('''', [], Some e)"
proof -
  have "first_error (phase_errors q) \<noteq> None"
  proof (cases "registerAliases q")
    case (Inl e)
    then have "Some e \<in> set (phase_errors q)" by (simp add: phase_errors_def)
    then show ?thesis unfolding first_error_None by blast
  next
    case (Inr am)
    from f [of am] obtain e where "buildFilterGroup q g [] am 0 (allowedSchema q) = Inl e" ..
    with w have "err_of (buildFilters q [] [] am (allowedSchema q)) = Some e"
      by (simp add: buildFilters_err_where)
    with Inr have "Some e \<in> set (phase_errors q)" by (simp add: phase_errors_def)
    then show ?thesis unfolding first_error_None by blast
  qed
  then obtain e where e: "snd (snd (Build q)) = Some e"
    by (auto simp add: Build_error)
  obtain sql args where b: "Build q = (sql, args, Some e)"
    using e by (cases "Build q") auto
  with Build_error_shape [OF b] show ?thesis by simp
qed

text \<open>
  Claim C3: the nesting of filter groups is bounded at 10 levels below the
  root group (\<open>nesting\<close> counts the levels of groups nested below a group;
  the root is visited at depth 0 and a group at depth 11 is refused). A root
  group with 11 levels or more below it always makes \<open>Build\<close> fail. When
  nothing else is wrong (the rest of the query builds without the filter
  tree, every group of the tree has the operator AND or OR and every filter
  is valid), the error is the depth error if there are 11 levels or more, and
  \<open>Build\<close> succeeds if there are 10 or fewer.
\<close>

theorem filter_depth_bound:
  assumes "where' q = Some g"
  shows "(10 < nesting g \<longrightarrow> (\<exists>e. Build q = ('''', [], Some e))) \<and>
         (registerAliases q = Inr am \<and> group_ok q am (allowedSchema q) g \<and>
          snd (snd (Build (q\<lparr>where' := None\<rparr>))) = None \<longrightarrow>
            (10 < nesting g \<longrightarrow> Build q = ('''', [], Some FilterDepthExceeded)) \<and>
            (nesting g \<le> 10 \<longrightarrow> snd (snd (Build q)) = None))"
proof (intro conjI impI)
  assume "10 < nesting g"
  then have "\<exists>e. buildFilterGroup q g [] am 0 (allowedSchema q) = Inl e" for am
    by (intro buildFilterGroup_too_deep(1)) (simp add: maxFilterDepth_def)
  with assms show "\<exists>e. Build q = ('''', [], Some e)"
    by (rule Build_fails_if_where_fails)
next
  assume h: "registerAliases q = Inr am \<and> group_ok q am (allowedSchema q) g \<and>
          snd (snd (Build (q\<lparr>where' := None\<rparr>))) = None"
  then have b: "snd (snd (Build q)) = err_of (buildFilterGroup q g [] am 0 (allowedSchema q))"
    using Build_where_error [OF assms] by blast
  { assume "10 < nesting g"
    then obtain e where e: "buildFilterGroup q g [] am 0 (allowedSchema q) = Inl e"
      using buildFilterGroup_too_deep(1) [of 0 g q "[]" am "allowedSchema q"]
      by (auto simp add: maxFilterDepth_def)
    with h have "e = FilterDepthExceeded"
      using buildFilterGroup_only_depth(1) by blast
    with b e have s: "snd (snd (Build q)) = Some FilterDepthExceeded" by simp
    obtain sql args where "Build q = (sql, args, Some FilterDepthExceeded)"
      using s by (cases "Build q") auto
    with Build_error_shape [OF this]
    show "Build q = ('''', [], Some FilterDepthExceeded)" by simp }
  { assume "nesting g \<le> 10"
    with h obtain r where "buildFilterGroup q g [] am 0 (allowedSchema q) = Inr r"
      using buildFilterGroup_ok(1) [of q am "allowedSchema q" g 0 "[]"]
      by (auto simp add: maxFilterDepth_def)
    with b show "snd (snd (Build q)) = None" by simp }
qed

theorem filter_depth_bound_witness:
  "nesting (nested_chain 11) = 11 \<and>
   Build (Where (Some (nested_chain 11)) (users_u PostgresDialect))
     = ('''', [], Some FilterDepthExceeded) \<and>
   nesting (nested_chain 10) = 10 \<and>
   snd (snd (Build (Where (Some (nested_chain 10)) (users_u PostgresDialect)))) = None \<and>
   Build (Where (Some (nested_chain 10)) (users_u PostgresDialect))
     = (''SELECT u.* FROM users u WHERE ((((((((((u.id = $1))))))))))'', [IntV 1], None)"
proof -
  let ?q = "\<lambda>n. Where (Some (nested_chain n)) (users_u PostgresDialect)"
  let ?am = "[''u'' \<mapsto> ''users'']"
  have w: "where' (?q n) = Some (nested_chain n)" for n
    by (simp add: Where_def)
  have n: "nesting (nested_chain 11) = 11" "nesting (nested_chain 10) = 10"
    by code_simp+
  have am: "registerAliases (?q n) = Inr ?am" for n
    by (simp add: registerAliases_def getBaseAlias_def Where_def users_u_def From_def New_def)
  have sch: "allowedSchema (?q n) = None" for n
    by (simp add: Where_def users_u_def From_def New_def)
  have g: "group_ok (?q 11) ?am None (nested_chain 11)" "group_ok (?q 10) ?am None (nested_chain 10)"
    by code_simp+
  have b: "snd (snd (Build ((?q n)\<lparr>where' := None\<rparr>))) = None" for n
    by (simp add: Where_def) code_simp
  have full: "Build (?q 10)
     = (''SELECT u.* FROM users u WHERE ((((((((((u.id = $1))))))))))'', [IntV 1], None)"
    by code_simp
  from filter_depth_bound [OF w [of 11], of ?am] am [of 11] g(1) b [of 11] n(1) sch [of 11]
  have r1: "Build (?q 11) = ('''', [], Some FilterDepthExceeded)" by simp
  from filter_depth_bound [OF w [of 10], of ?am] am [of 10] g(2) b [of 10] n(2) sch [of 10]
  have r2: "snd (snd (Build (?q 10))) = None" by simp
  from n r1 r2 full show ?thesis by simp
qed


section \<open>Keyset pagination\<close>

lemma buildKeysetPagination_first_sort:
  assumes "Pagination.Type (pagination q) = ''keyset''" "sorts q = s # rest"
  shows "buildKeysetPagination q args hasWhere =
     (case LastSeen (pagination q) (dotted (Sort.Column s)) of
        None \<Rightarrow> Inr ('''', args)
      | Some v \<Rightarrow>
          Inr (dotted (Sort.Column s) @ '' '' @ (if ToUpper (Dir s) = ''DESC'' then ''<'' else ''>'')
                 @ '' '' @ Placeholder (dialect q) (int (length args) + 1),
               args @ [v]))"
  using assms
  by (simp add: buildKeysetPagination_def Let_def dotted_def add.commute split: option.split)

lemma buildFilters_where_only:
  "buildFilters (q\<lparr>sorts := []\<rparr>) sb args am sch =
     (case where' q of
        None \<Rightarrow> Inr (sb, args)
      | Some g \<Rightarrow>
          (case buildFilterGroup q g args am 0 sch of
             Inl err \<Rightarrow> Inl err
           | Inr (whereClause, args1) \<Rightarrow>
               if whereClause \<noteq> '''' then Inr (sb @ '' WHERE '' @ whereClause, args1)
               else Inr (sb, args1)))"
proof -
  have b: "buildFilterGroup (q\<lparr>sorts := []\<rparr>) = buildFilterGroup q"
    by (intro ext buildFilterGroup_receiver) simp
  show ?thesis
    unfolding buildFilters_def b
    by (simp split: option.split sum.split prod.split)
qed

lemma buildFilters_keyset:
  assumes "Pagination.Type (pagination q) = ''keyset''" "sorts q = s # rest"
  shows "buildFilters q sb args am sch =
     (case buildFilters (q\<lparr>sorts := []\<rparr>) sb args am sch of
        Inl err \<Rightarrow> Inl err
      | Inr (sb1, args1) \<Rightarrow>
          (case LastSeen (pagination q) (dotted (Sort.Column s)) of
             None \<Rightarrow> Inr (sb1, args1)
           | Some v \<Rightarrow>
               Inr (sb1 @ (if sb1 = sb then '' WHERE '' else '' AND '')
                      @ dotted (Sort.Column s) @ '' ''
                      @ (if ToUpper (Dir s) = ''DESC'' then ''<'' else ''>'')
                      @ '' '' @ Placeholder (dialect q) (int (length args1) + 1),
                    args1 @ [v])))"
proof (cases "where' q")
  case None
  with assms show ?thesis
    unfolding buildFilters_where_only
    by (simp add: buildFilters_def buildKeysetPagination_first_sort [OF assms] split: option.split)
next
  case (Some g)
  show ?thesis
  proof (cases "buildFilterGroup q g args am 0 sch")
    case (Inl e)
    with Some show ?thesis
      unfolding buildFilters_where_only by (simp add: buildFilters_def)
  next
    case (Inr x)
    obtain w a1 where x: "x = (w, a1)" by (cases x)
    from Some Inr x assms show ?thesis
      unfolding buildFilters_where_only
      by (cases "w = []")
         (simp_all add: buildFilters_def buildKeysetPagination_first_sort [OF assms]
            split: option.split)
  qed
qed

text \<open>The pagination settings are read by the keyset predicate and by the
  limit and offset phase, which never fail.\<close>

lemma phase_errors_pagination: "phase_errors (q\<lparr>pagination := p\<rparr>) = phase_errors q"
proof -
  let ?q = "q\<lparr>pagination := p\<rparr>"
  have 1: "validateBase ?q = validateBase q"
    by (intro ext validateBase_receiver) simp
  have 2: "registerAliases ?q = registerAliases q"
    by (intro registerAliases_receiver) simp_all
  have 3: "buildProjections ?q = buildProjections q"
    by (intro ext buildProjections_receiver) simp
  have 4: "buildJoins ?q = buildJoins q"
    by (intro ext buildJoins_receiver) simp
  have 5: "buildFilterGroup ?q = buildFilterGroup q"
    by (intro ext buildFilterGroup_receiver) simp
  have 6: "buildOrderBy ?q = buildOrderBy q"
    by (intro ext buildOrderBy_receiver) simp
  have 7: "getBaseAlias ?q = getBaseAlias q"
    by (intro getBaseAlias_receiver) simp_all
  have 8: "err_of (buildFilters ?q sb args am sch) = err_of (buildFilters q sb args am sch)"
    for sb args am sch
    unfolding buildFilters_err_where 5 by simp
  have 9: "isCount ?q = isCount q" "allowedSchema ?q = allowedSchema q" "errors ?q = errors q"
    by simp_all
  show ?thesis
    unfolding phase_errors_def 1 2 3 4 6 7 8 9 ..
qed

text \<open>
  Claim C6: under keyset pagination with at least one sort column, the key
  \<open>alias.column\<close> of the first sort column \<open>s\<close> is looked up in the last-seen
  mapping. When the key is absent, no predicate is built, no argument is
  appended and the WHERE phase gives what it gives without any sort column,
  so the absence is no error. When the key is present with value \<open>v\<close>, the
  predicate is \<open>alias.column > placeholder\<close> for the direction ASC and
  \<open>alias.column < placeholder\<close> for DESC, the placeholder being that of the
  new argument \<open>v\<close>; the WHERE phase appends it with WHERE, or with AND after
  a rendered filter tree. The sort columns after the first change nothing.

  In what \<open>Build\<close> returns: let the other phases succeed, with \<open>treeText\<close>
  and \<open>args1\<close> the text and the arguments of the filter tree alone (the WHERE
  phase of the query without sort columns). With the key absent \<open>Build\<close>
  succeeds and its text has \<open>treeText\<close> and nothing else between the joins and
  ORDER BY (or the end, for a count query), and the arguments of the WHERE
  phase are \<open>args1\<close>. With the key present \<open>Build\<close> succeeds and the
  predicate follows \<open>treeText\<close>, after WHERE or AND, with \<open>v\<close> appended to
  \<open>args1\<close>. The pagination settings, and so the last-seen mapping, never
  change whether \<open>Build\<close> fails, nor its error.
\<close>

theorem keyset_predicate:
  assumes "Pagination.Type (pagination q) = ''keyset''" and "sorts q = s # rest"
  shows
    "(LastSeen (pagination q) (dotted (Sort.Column s)) = None \<longrightarrow>
        buildKeysetPagination q args hasWhere = Inr ('''', args) \<and>
        buildFilters q sb args am sch = buildFilters (q\<lparr>sorts := []\<rparr>) sb args am sch) \<and>
     (LastSeen (pagination q) (dotted (Sort.Column s)) = Some v \<longrightarrow>
        (Dir s = ''ASC'' \<longrightarrow>
           buildKeysetPagination q args hasWhere =
             Inr (dotted (Sort.Column s) @ '' > '' @ Placeholder (dialect q) (int (length args) + 1),
                  args @ [v])) \<and>
        (Dir s = ''DESC'' \<longrightarrow>
           buildKeysetPagination q args hasWhere =
             Inr (dotted (Sort.Column s) @ '' < '' @ Placeholder (dialect q) (int (length args) + 1),
                  args @ [v])) \<and>
        buildFilters q sb args am sch =
          (case buildFilters (q\<lparr>sorts := []\<rparr>) sb args am sch of
             Inl err \<Rightarrow> Inl err
           | Inr (sb1, args1) \<Rightarrow>
               Inr (sb1 @ (if sb1 = sb then '' WHERE '' else '' AND '')
                      @ dotted (Sort.Column s) @ '' ''
                      @ (if ToUpper (Dir s) = ''DESC'' then ''<'' else ''>'')
                      @ '' '' @ Placeholder (dialect q) (int (length args1) + 1),
                    args1 @ [v]))) \<and>
     buildKeysetPagination (q\<lparr>sorts := s # rest'\<rparr>) args hasWhere
       = buildKeysetPagination q args hasWhere \<and>
     buildFilters (q\<lparr>sorts := s # rest'\<rparr>) sb args am sch = buildFilters q sb args am sch \<and>
     (errors q = [] \<and> validateBase q (allowedSchema q) = None \<and>
      registerAliases q = Inr am0 \<and>
      (if isCount q then Inr ''SELECT COUNT(*)''
       else buildProjections q [] am0 (allowedSchema q) (getBaseAlias q)) = Inr sel \<and>
      buildJoins q [] am0 (allowedSchema q) = Inr joinsText \<and>
      buildFilters (q\<lparr>sorts := []\<rparr>) [] [] am0 (allowedSchema q) = Inr (treeText, args1) \<and>
      (isCount q \<or> buildOrderBy q [] am0 (allowedSchema q) = Inr orderText) \<longrightarrow>
        (LastSeen (pagination q) (dotted (Sort.Column s)) = None \<longrightarrow>
         Build q =
          (if isCount q
            then (sel @ '' FROM '' @ baseTable q @ '' '' @ getBaseAlias q @ joinsText
                    @ treeText,
                  args1, None)
            else (sel @ '' FROM '' @ baseTable q @ '' '' @ getBaseAlias q @ joinsText
                    @ treeText
                    @ orderText @ fst (buildLimitOffset q [] args1),
                  snd (buildLimitOffset q [] args1), None))) \<and>
        (LastSeen (pagination q) (dotted (Sort.Column s)) = Some v \<longrightarrow>
         Build q =
          (if isCount q
            then (sel @ '' FROM '' @ baseTable q @ '' '' @ getBaseAlias q @ joinsText
                    @ treeText @ (if treeText = '''' then '' WHERE '' else '' AND '')
                    @ dotted (Sort.Column s) @ '' ''
                    @ (if ToUpper (Dir s) = ''DESC'' then ''<'' else ''>'')
                    @ '' '' @ Placeholder (dialect q) (int (length args1) + 1),
                  args1 @ [v], None)
            else (sel @ '' FROM '' @ baseTable q @ '' '' @ getBaseAlias q @ joinsText
                    @ treeText @ (if treeText = '''' then '' WHERE '' else '' AND '')
                    @ dotted (Sort.Column s) @ '' ''
                    @ (if ToUpper (Dir s) = ''DESC'' then ''<'' else ''>'')
                    @ '' '' @ Placeholder (dialect q) (int (length args1) + 1)
                    @ orderText @ fst (buildLimitOffset q [] (args1 @ [v])),
                  snd (buildLimitOffset q [] (args1 @ [v])), None)))) \<and>
     snd (snd (Build (q\<lparr>pagination := p\<rparr>))) = snd (snd (Build q))"
proof (intro conjI impI)
  assume n: "LastSeen (pagination q) (dotted (Sort.Column s)) = None"
  from n show "buildKeysetPagination q args hasWhere = Inr ('''', args)"
    by (simp add: buildKeysetPagination_first_sort [OF assms])
  from n show "buildFilters q sb args am sch = buildFilters (q\<lparr>sorts := []\<rparr>) sb args am sch"
    unfolding buildFilters_keyset [OF assms] n option.case by (simp split: sum.split)
next
  assume v: "LastSeen (pagination q) (dotted (Sort.Column s)) = Some v"
  have up: "ToUpper ''ASC'' \<noteq> ''DESC''" "ToUpper ''DESC'' = ''DESC''"
    by (simp_all add: ToUpper_def upper_char_def is_ascii_def)
  { assume "Dir s = ''ASC''"
    with v up show "buildKeysetPagination q args hasWhere =
             Inr (dotted (Sort.Column s) @ '' > '' @ Placeholder (dialect q) (int (length args) + 1),
                  args @ [v])"
      by (simp add: buildKeysetPagination_first_sort [OF assms]) }
  { assume "Dir s = ''DESC''"
    with v up show "buildKeysetPagination q args hasWhere =
             Inr (dotted (Sort.Column s) @ '' < '' @ Placeholder (dialect q) (int (length args) + 1),
                  args @ [v])"
      by (simp add: buildKeysetPagination_first_sort [OF assms]) }
  show "buildFilters q sb args am sch =
          (case buildFilters (q\<lparr>sorts := []\<rparr>) sb args am sch of
             Inl err \<Rightarrow> Inl err
           | Inr (sb1, args1) \<Rightarrow>
               Inr (sb1 @ (if sb1 = sb then '' WHERE '' else '' AND '')
                      @ dotted (Sort.Column s) @ '' ''
                      @ (if ToUpper (Dir s) = ''DESC'' then ''<'' else ''>'')
                      @ '' '' @ Placeholder (dialect q) (int (length args1) + 1),
                    args1 @ [v]))"
    unfolding buildFilters_keyset [OF assms] v option.case by (rule refl)
next
  show "buildKeysetPagination (q\<lparr>sorts := s # rest'\<rparr>) args hasWhere
       = buildKeysetPagination q args hasWhere"
    using assms
    by (simp add: buildKeysetPagination_first_sort [of "q\<lparr>sorts := s # rest'\<rparr>" s rest']
          buildKeysetPagination_first_sort [of q s rest] cong: option.case_cong)
  show "buildFilters (q\<lparr>sorts := s # rest'\<rparr>) sb args am sch = buildFilters q sb args am sch"
    using assms by (intro buildFilters_receiver_sorts) simp_all
next
  assume h: "errors q = [] \<and> validateBase q (allowedSchema q) = None \<and>
      registerAliases q = Inr am0 \<and>
      (if isCount q then Inr ''SELECT COUNT(*)''
       else buildProjections q [] am0 (allowedSchema q) (getBaseAlias q)) = Inr sel \<and>
      buildJoins q [] am0 (allowedSchema q) = Inr joinsText \<and>
      buildFilters (q\<lparr>sorts := []\<rparr>) [] [] am0 (allowedSchema q) = Inr (treeText, args1) \<and>
      (isCount q \<or> buildOrderBy q [] am0 (allowedSchema q) = Inr orderText)"
  note k = buildFilters_keyset [OF assms, of "[]" "[]" am0 "allowedSchema q"]
  from h have hs: "errors q = []" "validateBase q (allowedSchema q) = None"
    "registerAliases q = Inr am0"
    "(if isCount q then Inr ''SELECT COUNT(*)''
      else buildProjections q [] am0 (allowedSchema q) (getBaseAlias q)) = Inr sel"
    "buildJoins q [] am0 (allowedSchema q) = Inr joinsText"
    "buildFilters (q\<lparr>sorts := []\<rparr>) [] [] am0 (allowedSchema q) = Inr (treeText, args1)"
    "isCount q \<or> buildOrderBy q [] am0 (allowedSchema q) = Inr orderText"
    by blast+
  { assume n: "LastSeen (pagination q) (dotted (Sort.Column s)) = None"
    from hs(6) n have f: "buildFilters q [] [] am0 (allowedSchema q) = Inr (treeText, args1)"
      unfolding k by simp
    show "Build q =
          (if isCount q
            then (sel @ '' FROM '' @ baseTable q @ '' '' @ getBaseAlias q @ joinsText
                    @ treeText,
                  args1, None)
            else (sel @ '' FROM '' @ baseTable q @ '' '' @ getBaseAlias q @ joinsText
                    @ treeText
                    @ orderText @ fst (buildLimitOffset q [] args1),
                  snd (buildLimitOffset q [] args1), None))"
      by (rule Build_text [OF hs(1) hs(2) hs(3) hs(4) hs(5) f hs(7)]) }
  { assume v: "LastSeen (pagination q) (dotted (Sort.Column s)) = Some v"
    from hs(6) v have f: "buildFilters q [] [] am0 (allowedSchema q) =
        Inr (treeText @ (if treeText = '''' then '' WHERE '' else '' AND '')
                    @ dotted (Sort.Column s) @ '' ''
                    @ (if ToUpper (Dir s) = ''DESC'' then ''<'' else ''>'')
                    @ '' '' @ Placeholder (dialect q) (int (length args1) + 1), args1 @ [v])"
      unfolding k by simp
    from Build_text [OF hs(1) hs(2) hs(3) hs(4) hs(5) f hs(7)]
    show "Build q =
          (if isCount q
            then (sel @ '' FROM '' @ baseTable q @ '' '' @ getBaseAlias q @ joinsText
                    @ treeText @ (if treeText = '''' then '' WHERE '' else '' AND '')
                    @ dotted (Sort.Column s) @ '' ''
                    @ (if ToUpper (Dir s) = ''DESC'' then ''<'' else ''>'')
                    @ '' '' @ Placeholder (dialect q) (int (length args1) + 1),
                  args1 @ [v], None)
            else (sel @ '' FROM '' @ baseTable q @ '' '' @ getBaseAlias q @ joinsText
                    @ treeText @ (if treeText = '''' then '' WHERE '' else '' AND '')
                    @ dotted (Sort.Column s) @ '' ''
                    @ (if ToUpper (Dir s) = ''DESC'' then ''<'' else ''>'')
                    @ '' '' @ Placeholder (dialect q) (int (length args1) + 1)
                    @ orderText @ fst (buildLimitOffset q [] (args1 @ [v])),
                  snd (buildLimitOffset q [] (args1 @ [v])), None))"
      by (simp only: append_assoc) }
next
  show "snd (snd (Build (q\<lparr>pagination := p\<rparr>))) = snd (snd (Build q))"
    unfolding Build_error by (simp add: phase_errors_pagination)
qed

theorem keyset_predicate_witness:
  "Pagination.Type (pagination keyset_query) = ''keyset'' \<and>
   sorts keyset_query = [\<lparr> Sort.Column = Col ''u.id'', Dir = ''ASC'' \<rparr>] \<and>
   LastSeen (pagination keyset_query) ''u.id'' = Some (IntV 42) \<and>
   buildKeysetPagination keyset_query [] False = Inr (''u.id > ?'', [IntV 42]) \<and>
   buildFilters keyset_query ''SELECT u.* FROM users u'' [] Map.empty None
     = Inr (''SELECT u.* FROM users u WHERE u.id > ?'', [IntV 42]) \<and>
   buildKeysetPagination (keyset_query\<lparr>sorts := [\<lparr> Sort.Column = Col ''u.id'', Dir = ''DESC'' \<rparr>]\<rparr>)
       [] False = Inr (''u.id < ?'', [IntV 42]) \<and>
   buildKeysetPagination (KeysetPagination Map.empty keyset_query) [] False = Inr ('''', []) \<and>
   Build keyset_query
     = (''SELECT u.* FROM users u WHERE u.id > ? ORDER BY u.id ASC FETCH NEXT ? ROWS ONLY'',
        [IntV 42, IntV 10], None) \<and>
   Build (keyset_query\<lparr>sorts := [\<lparr> Sort.Column = Col ''u.id'', Dir = ''DESC'' \<rparr>]\<rparr>)
     = (''SELECT u.* FROM users u WHERE u.id < ? ORDER BY u.id DESC FETCH NEXT ? ROWS ONLY'',
        [IntV 42, IntV 10], None) \<and>
   Build (KeysetPagination Map.empty keyset_query)
     = (''SELECT u.* FROM users u ORDER BY u.id ASC FETCH NEXT ? ROWS ONLY'', [IntV 10], None)"
proof -
  let ?s = "\<lparr> Sort.Column = Col ''u.id'', Dir = ''ASC'' \<rparr>"
  let ?d = "\<lparr> Sort.Column = Col ''u.id'', Dir = ''DESC'' \<rparr>"
  let ?q = "keyset_query"
  let ?qd = "keyset_query\<lparr>sorts := [?d]\<rparr>"
  let ?qn = "KeysetPagination Map.empty keyset_query :: unit Query"
  let ?am = "[''u'' \<mapsto> ''users'']"
  have a: "Pagination.Type (pagination keyset_query) = ''keyset''"
    "sorts keyset_query = [?s]"
    "LastSeen (pagination keyset_query) ''u.id'' = Some (IntV 42)"
    "dotted (Sort.Column ?s) = ''u.id''" "Dir ?s = ''ASC''"
    "Placeholder (dialect keyset_query) = (\<lambda>i. ''?'')"
    by (simp_all add: keyset_query_def users_u_def KeysetPagination_def OrderBy_def Limit_def
        From_def New_def MySQLDialect_def Col_def dotted_def ToUpper_def upper_char_def is_ascii_def)
  have b: "Pagination.Type (pagination ?qd) = ''keyset''" "sorts ?qd = [?d]"
    "LastSeen (pagination ?qd) ''u.id'' = Some (IntV 42)"
    "dotted (Sort.Column ?d) = ''u.id''" "Dir ?d = ''DESC''"
    "Placeholder (dialect ?qd) = (\<lambda>i. ''?'')"
    using a by (simp_all add: dotted_def Col_def)
  have c: "Pagination.Type (pagination ?qn) = ''keyset''" "sorts ?qn = [?s]"
    "LastSeen (pagination ?qn) ''u.id'' = None"
    "Placeholder (dialect ?qn) = (\<lambda>i. ''?'')"
    using a by (simp_all add: KeysetPagination_def)
  have up: "ToUpper ''ASC'' \<noteq> ''DESC''" "ToUpper ''DESC'' = ''DESC''"
    by (simp_all add: ToUpper_def upper_char_def is_ascii_def)
  have w: "buildFilters (keyset_query\<lparr>sorts := []\<rparr>) ''SELECT u.* FROM users u'' [] Map.empty None
             = Inr (''SELECT u.* FROM users u'', [])"
    by (simp add: buildFilters_def keyset_query_def users_u_def KeysetPagination_def OrderBy_def
        Limit_def From_def New_def)
  have am: "registerAliases ?q = Inr ?am" "registerAliases ?qd = Inr ?am"
    "registerAliases ?qn = Inr ?am"
    by (simp_all add: registerAliases_def getBaseAlias_def keyset_query_def
        users_u_def Limit_def KeysetPagination_def OrderBy_def From_def New_def)
  have h: "errors ?q = [] \<and> validateBase ?q (allowedSchema ?q) = None \<and>
      registerAliases ?q = Inr ?am \<and>
      (if isCount ?q then Inr ''SELECT COUNT(*)''
       else buildProjections ?q [] ?am (allowedSchema ?q) (getBaseAlias ?q)) = Inr ''SELECT u.*'' \<and>
      buildJoins ?q [] ?am (allowedSchema ?q) = Inr '''' \<and>
      buildFilters (?q\<lparr>sorts := []\<rparr>) [] [] ?am (allowedSchema ?q) = Inr ('''', []) \<and>
      (isCount ?q \<or> buildOrderBy ?q [] ?am (allowedSchema ?q) = Inr '' ORDER BY u.id ASC'')"
    by (intro conjI am(1)) code_simp+
  have hd: "errors ?qd = [] \<and> validateBase ?qd (allowedSchema ?qd) = None \<and>
      registerAliases ?qd = Inr ?am \<and>
      (if isCount ?qd then Inr ''SELECT COUNT(*)''
       else buildProjections ?qd [] ?am (allowedSchema ?qd) (getBaseAlias ?qd)) = Inr ''SELECT u.*'' \<and>
      buildJoins ?qd [] ?am (allowedSchema ?qd) = Inr '''' \<and>
      buildFilters (?qd\<lparr>sorts := []\<rparr>) [] [] ?am (allowedSchema ?qd) = Inr ('''', []) \<and>
      (isCount ?qd \<or> buildOrderBy ?qd [] ?am (allowedSchema ?qd) = Inr '' ORDER BY u.id DESC'')"
    by (intro conjI am(2)) code_simp+
  have hn: "errors ?qn = [] \<and> validateBase ?qn (allowedSchema ?qn) = None \<and>
      registerAliases ?qn = Inr ?am \<and>
      (if isCount ?qn then Inr ''SELECT COUNT(*)''
       else buildProjections ?qn [] ?am (allowedSchema ?qn) (getBaseAlias ?qn)) = Inr ''SELECT u.*'' \<and>
      buildJoins ?qn [] ?am (allowedSchema ?qn) = Inr '''' \<and>
      buildFilters (?qn\<lparr>sorts := []\<rparr>) [] [] ?am (allowedSchema ?qn) = Inr ('''', []) \<and>
      (isCount ?qn \<or> buildOrderBy ?qn [] ?am (allowedSchema ?qn) = Inr '' ORDER BY u.id ASC'')"
    by (intro conjI am(3)) code_simp+
  have t: "\<not> isCount ?q" "baseTable ?q = ''users''" "getBaseAlias ?q = ''u''"
    "buildLimitOffset ?q [] [IntV 42] = ('' FETCH NEXT ? ROWS ONLY'', [IntV 42, IntV 10])"
    "\<not> isCount ?qd" "baseTable ?qd = ''users''" "getBaseAlias ?qd = ''u''"
    "buildLimitOffset ?qd [] [IntV 42] = ('' FETCH NEXT ? ROWS ONLY'', [IntV 42, IntV 10])"
    "\<not> isCount ?qn" "baseTable ?qn = ''users''" "getBaseAlias ?qn = ''u''"
    "buildLimitOffset ?qn [] [] = ('' FETCH NEXT ? ROWS ONLY'', [IntV 10])"
    by code_simp+
  note kq = keyset_predicate [OF a(1,2), where v = "IntV 42" and args = "[]" and hasWhere = False
      and sb = "''SELECT u.* FROM users u''" and am = Map.empty and sch = None]
  note kd = keyset_predicate [OF b(1,2), where v = "IntV 42" and args = "[]" and hasWhere = False]
  note kn = keyset_predicate [OF c(1,2), where args = "[]" and hasWhere = False]
  from kq [THEN conjunct2, THEN conjunct1] a
  have r1: "buildKeysetPagination keyset_query [] False = Inr (''u.id > ?'', [IntV 42])"
    by simp
  from kq [THEN conjunct2, THEN conjunct1] a w
  have r2: "buildFilters keyset_query ''SELECT u.* FROM users u'' [] Map.empty None
     = Inr (''SELECT u.* FROM users u WHERE u.id > ?'', [IntV 42])"
    by (simp add: up)
  from kd [THEN conjunct2, THEN conjunct1] b
  have r3: "buildKeysetPagination ?qd [] False = Inr (''u.id < ?'', [IntV 42])"
    by simp
  from kn [THEN conjunct1] c a(4)
  have r4: "buildKeysetPagination ?qn [] False = Inr ('''', [])"
    by simp
  from kq [THEN conjunct2, THEN conjunct2, THEN conjunct2, THEN conjunct2, THEN conjunct1,
      THEN mp, OF h, THEN conjunct2, THEN mp] a(3,4)
  have r5: "Build ?q
     = (''SELECT u.* FROM users u WHERE u.id > ? ORDER BY u.id ASC FETCH NEXT ? ROWS ONLY'',
        [IntV 42, IntV 10], None)"
    by (simp add: t a(5,6) up)
  from kd [THEN conjunct2, THEN conjunct2, THEN conjunct2, THEN conjunct2, THEN conjunct1,
      THEN mp, OF hd, THEN conjunct2, THEN mp] b(3,4)
  have r6: "Build ?qd
     = (''SELECT u.* FROM users u WHERE u.id < ? ORDER BY u.id DESC FETCH NEXT ? ROWS ONLY'',
        [IntV 42, IntV 10], None)"
    by (simp add: t b(5,6) a(6) up)
  from kn [THEN conjunct2, THEN conjunct2, THEN conjunct2, THEN conjunct2, THEN conjunct1,
      THEN mp, OF hn, THEN conjunct1, THEN mp] c(3) a(4)
  have r7: "Build ?qn
     = (''SELECT u.* FROM users u ORDER BY u.id ASC FETCH NEXT ? ROWS ONLY'', [IntV 10], None)"
    by (simp add: t)
  from a(1,2,3) r1 r2 r3 r4 r5 r6 r7 show ?thesis
    by (intro conjI)
qed


section \<open>Column references\<close>

lemma split_on_length: "length (split_on c s) = Suc (count_list s c)"
  by (induction s) (auto split: list.splits)

lemma split_on_no_sep: "c \<notin> set s \<Longrightarrow> split_on c s = [s]"
  by (induction s) auto

lemma split_on_first: "c \<notin> set a \<Longrightarrow> split_on c (a @ c # b) = a # split_on c b"
  by (induction a) auto

text \<open>Where \<open>Col\<close> does what its documentation says: a reference without dot
  has an empty alias and is the column name; a reference with exactly one dot
  is cut at that dot.\<close>

lemma Col_no_dot:
  "CHR ''.'' \<notin> set ref \<Longrightarrow> Col ref = \<lparr> TableAlias = '''', ColumnName = ref \<rparr>"
  by (simp add: Col_def split_on_no_sep)

lemma Col_one_dot:
  assumes "CHR ''.'' \<notin> set a" and "CHR ''.'' \<notin> set c"
  shows "Col (a @ ''.'' @ c) = \<lparr> TableAlias = a, ColumnName = c \<rparr>"
proof -
  from assms have "split_on (CHR ''.'') (a @ ''.'' @ c) = [a, c]"
    by (simp add: split_on_first split_on_no_sep)
  then show ?thesis
    by (simp add: Col_def)
qed

text \<open>Where it does not: every reference with two dots or more.\<close>

lemma Col_more_dots:
  assumes "2 \<le> count_list ref (CHR ''.'')"
  shows "Col ref = \<lparr> TableAlias = '''', ColumnName = ref \<rparr>"
proof -
  from assms have "length (split_on (CHR ''.'') ref) \<noteq> 2"
    by (simp add: split_on_length)
  then show ?thesis
    by (simp add: Col_def Let_def)
qed

text \<open>
  Claim C7: \<open>Col\<close> cuts a reference at its first dot: without dot, the alias
  is empty and the column name is the whole string; with a dot, the alias is
  the text before the first dot and the column name is the rest. The comment
  above \<open>Col\<close> in \<^verbatim>\<open>builder.go\<close> says the same (a string that contains a dot
  is split into alias and name). The code does not do this for a reference
  with more than one dot: it splits at every dot and reads the pieces as alias
  and column only when there are exactly two. On \<open>''a.b.c''\<close>, which contains
  a dot, \<open>Col\<close> returns an empty alias and the column name \<open>''a.b.c''\<close>, and not
  the alias \<open>''a''\<close> with the column name \<open>''b.c''\<close>.
\<close>

theorem Col_two_dots_not_split:
  "CHR ''.'' \<in> set ''a.b.c'' \<and>
   Col ''a.b.c'' = \<lparr> TableAlias = '''', ColumnName = ''a.b.c'' \<rparr> \<and>
   Col ''a.b.c'' \<noteq> \<lparr> TableAlias = ''a'', ColumnName = ''b.c'' \<rparr> \<and>
   Col ''u.id'' = \<lparr> TableAlias = ''u'', ColumnName = ''id'' \<rparr> \<and>
   Col ''id'' = \<lparr> TableAlias = '''', ColumnName = ''id'' \<rparr>"
  by (simp add: Col_def)


section \<open>References without alias in open-world mode\<close>















section \<open>The symbolic output renders to the text of Build\<close>

lemma render_Nil [simp]: "render d [] = []"
  by (simp add: render_def)

lemma render_Cons_Lit [simp]: "render d (Lit s # ps) = s @ render d ps"
  by (simp add: render_def)

lemma render_Cons_Param [simp]: "render d (Param i v # ps) = Placeholder d i @ render d ps"
  by (simp add: render_def)

lemma render_append [simp]: "render d (ps @ ps') = render d ps @ render d ps'"
  by (simp add: render_def)











section \<open>Placeholders are numbered by the arguments\<close>

lemma params_append [simp]: "params (ps @ ps') = params ps @ params ps'"
  by (induction ps rule: params.induct) simp_all


lemma numbered_Nil [simp]: "numbered args [] args"
  by (simp add: numbered_def)


lemma numbered_Lit [simp]: "numbered a (Lit s # ps) b = numbered a ps b"
  by (simp add: numbered_def)

lemma numbered_snoc_Lit [simp]: "numbered a (ps @ [Lit s]) b = numbered a ps b"
  by (simp add: numbered_def)














section \<open>Schema validation and the keyset predicate\<close>

text \<open>
  Claim C4: with a schema set, a build without error means that every table
  and column referenced exists in the schema, the sort column of a keyset
  predicate included. The code checks a sort column in \<open>buildOrderBy\<close> only,
  and \<open>buildKeysetPagination\<close> checks nothing; in count mode \<open>Build\<close> returns
  before \<open>buildOrderBy\<close>. So the count query on \<open>users u\<close> with the schema
  \<open>users(id, name)\<close>, the sort column \<open>x.secret\<close> and a last-seen value for
  it builds without error and puts \<open>x.secret\<close> in its text, although
  \<open>validateCol\<close> refuses that column (the alias \<open>x\<close> is not registered);
  the same query outside count mode is refused with that very error.
\<close>

theorem keyset_sort_column_unchecked:
  "allowedSchema unchecked_keyset_query = Some users_schema \<and>
   isCount unchecked_keyset_query \<and>
   map Sort.Column (sorts unchecked_keyset_query)
     = [\<lparr> TableAlias = ''x'', ColumnName = ''secret'' \<rparr>] \<and>
   (case registerAliases unchecked_keyset_query of
      Inl e \<Rightarrow> None
    | Inr am \<Rightarrow> validateCol unchecked_keyset_query \<lparr> TableAlias = ''x'', ColumnName = ''secret'' \<rparr>
                  am (allowedSchema unchecked_keyset_query))
     = Some (UnknownRef ''x'' ''secret'') \<and>
   Build unchecked_keyset_query
     = (''SELECT COUNT(*) FROM users u WHERE x.secret > $1'', [IntV 1], None) \<and>
   Build (unchecked_keyset_query\<lparr> isCount := False \<rparr>)
     = ('''', [], Some (InvalidSortColumn (UnknownRef ''x'' ''secret'')))"
proof (intro conjI)
  show "allowedSchema unchecked_keyset_query = Some users_schema"
    by (simp add: unchecked_keyset_query_def KeysetPagination_def OrderBy_def Count_def
        WithSchema_def)
qed code_simp+

end
